theory Spec2Isabelle
  imports Main "HOL-Library.Word" "HOL-Library.Signed_Division"
begin

unbundle bit_operations_syntax

section \<open>Chain state and block tree databases: data model (txdb.cpp)\<close>

text \<open>
  Modelled from the spec: the headers that declare the types of txdb.cpp (coins.h,
  leveldbwrapper.h, serialize.h, addressindex.h, uint256.h) are absent; the records of this
  section follow section 3 of the specification and the fields txdb.cpp reads. They are
  declared before the block index, so that \<open>nHeight\<close> and \<open>nVersion\<close> alone are the block
  index's fields and the others are written with their record's name.
\<close>

type_synonym bytes = "8 word list"
type_synonym uint256 = "256 word"
type_synonym uint160 = "160 word"

text \<open>
  Modelled from the spec: a transaction output is a value and a script, or the null marker
  that replaces a spent output in place (\<^verbatim>\<open>IsNull()\<close>).
\<close>

datatype CTxOut = NullTxOut | CTxOut (nValue: int) (scriptPubKey: bytes)

record CCoins =
  fCoinBase :: bool
  vout :: "CTxOut list"
  nHeight :: int
  nVersion :: int

text \<open>An entry of the cache map: the coins and the flags byte.\<close>

record CCoinsCacheEntry =
  coins :: CCoins
  flags :: "8 word"

text \<open>
  \<^verbatim>\<open>CCoinsMap\<close>, an unordered map: the entries in the order the iteration visits them,
  with distinct keys.
\<close>

type_synonym CCoinsMap = "(uint256 \<times> CCoinsCacheEntry) list"

record CCoinsStats =
  nHeight :: int
  hashBlock :: uint256
  nTransactions :: nat
  nTransactionOutputs :: nat
  nSerializedSize :: nat
  hashSerialized :: uint256
  nTotalAmount :: int

record CDiskTxPos =
  nFile :: "32 word"
  nPos :: "32 word"
  nTxOffset :: "32 word"


record CAddressIndexKey =
  type :: int
  hashBytes :: uint160
  blockHeight :: int
  txindex :: nat
  txhash :: uint256
  index :: nat
  spending :: bool

record CAddressUnspentKey =
  type :: int
  hashBytes :: uint160
  txhash :: uint256
  index :: nat

record CAddressUnspentValue =
  satoshis :: int
  script :: bytes
  blockHeight :: int

text \<open>
  What the absent headers provide and txdb.cpp uses, taken as parameters: the \<open>DIRTY\<close> bit
  of coins.h, the serialization of each type written to or read from the database or the
  hash writer (\<open>None\<close> is the exception a read throws), and the double SHA256 of the hash
  writer.
\<close>

record txdb_h =
  DIRTY :: "8 word"
  ser_uint256 :: "uint256 \<Rightarrow> bytes"
  unser_uint256 :: "bytes \<Rightarrow> uint256 option"
  ser_varint :: "int \<Rightarrow> bytes"
  ser_txout :: "CTxOut \<Rightarrow> bytes"
  ser_coins :: "CCoins \<Rightarrow> bytes"
  unser_coins :: "bytes \<Rightarrow> CCoins option"
  ser_pos :: "CDiskTxPos \<Rightarrow> bytes"
  unser_pos :: "bytes \<Rightarrow> CDiskTxPos option"
  ser_iterator_key :: "char \<times> int \<times> uint160 \<Rightarrow> bytes"
  ser_iterator_height_key :: "char \<times> int \<times> uint160 \<times> int \<Rightarrow> bytes"
  unser_address_key :: "bytes \<Rightarrow> (char \<times> CAddressIndexKey) option"
  unser_amount :: "bytes \<Rightarrow> int option"
  unser_unspent_key :: "bytes \<Rightarrow> (char \<times> CAddressUnspentKey) option"
  unser_unspent_value :: "bytes \<Rightarrow> CAddressUnspentValue option"
  SHA256d :: "bytes \<Rightarrow> uint256"

text \<open>
  Modelled from the spec: the key-value engine behind the absent \<^verbatim>\<open>CLevelDBWrapper\<close>
  (section 4.1), an ordered store of byte strings. The records are kept in the order the
  iterator visits them, the bytewise order of the keys; a batch is the list of its
  operations in the order they were added.
\<close>

type_synonym leveldb = "(bytes \<times> bytes) list"

datatype batch_op = Put bytes bytes | Delete bytes

type_synonym CLevelDBBatch = "batch_op list"


section \<open>Versionbits: data model (versionbits.cpp)\<close>

text \<open>
  The five threshold states of a BIP9 deployment, in the order of the source's enum.
\<close>

datatype ThresholdState = DEFINED | STARTED | LOCKED_IN | ACTIVE | FAILED

text \<open>
  Modelled from the spec: chain.h is absent. A block index entry has the fields that
  versionbits.cpp reads. The source holds raw pointers \<^verbatim>\<open>const CBlockIndex*\<close> into an
  immutable, acyclic block tree (section 3 of the specification); a pointer is modelled by
  the entry it points to together with its ancestry, \<^verbatim>\<open>nullptr\<close> by \<open>None\<close>. Entries are
  interned by block hash, so two pointers are equal exactly when the entries and their
  ancestries are. Heights are the source's \<^verbatim>\<open>int\<close>, taken as unbounded integers: no
  height of a block tree comes near \<open>2^31\<close>. \<open>GetMedianTimePast\<close> stands for the value the
  method of that name returns at the entry (section 6: the block validator supplies
  \<^verbatim>\<open>MedianTimePast(index) -> i64\<close>).
\<close>

datatype CBlockIndex =
  CBlockIndex (pprev: "CBlockIndex option") (nHeight: int) (nVersion: "32 word")
    (GetMedianTimePast: int)

text \<open>
  What in C++ is undefined behaviour or an abort is a value of the model.
\<close>

datatype fault =
  NullDereference | DivisionByZero | AssertionFailed | EndIteratorDereference | UndefinedShift

text \<open>
  The statistics record is declared before the deployment, so that \<open>threshold\<close> alone is
  the deployment's field and \<open>BIP9Stats.threshold\<close> the statistics'.
\<close>

record BIP9Stats =
  period :: int
  threshold :: int
  elapsed :: int
  count :: int
  possible :: bool

record BIP9Deployment =
  bit :: nat
  nStartTime :: int
  nTimeout :: int
  nPeriod :: int
  threshold :: int

text \<open>
  The constants of the absent header versionbits.h, taken as parameters: the sentinel
  \<^verbatim>\<open>BIP9Deployment::ALWAYS_ACTIVE\<close> and the two version masks.
\<close>

record versionbits_h =
  ALWAYS_ACTIVE :: int
  VERSIONBITS_TOP_BITS :: "32 word"
  VERSIONBITS_TOP_MASK :: "32 word"

text \<open>
  \<^verbatim>\<open>std::map<const CBlockIndex*, ThresholdState>\<close>: the null pointer is a possible key.
\<close>

type_synonym ThresholdConditionCache = "CBlockIndex option \<rightharpoonup> ThresholdState"

section \<open>Versionbits: the operations\<close>

text \<open>
  Modelled from the spec: \<^verbatim>\<open>CBlockIndex::GetAncestor(height)\<close> of the absent chain.h, the
  ancestor of the entry at the given height (the entry itself at its own height), and
  \<^verbatim>\<open>nullptr\<close> for a negative height or one above the entry's: the genesis parent is the
  null pointer. The walk follows \<open>pprev\<close> once per unit of height.
\<close>

fun pprev_steps :: "nat \<Rightarrow> CBlockIndex \<Rightarrow> fault + CBlockIndex" where
  "pprev_steps 0 b = Inr b"
| "pprev_steps (Suc k) b =
     (case pprev b of None \<Rightarrow> Inl NullDereference | Some q \<Rightarrow> pprev_steps k q)"

definition GetAncestor :: "CBlockIndex \<Rightarrow> int \<Rightarrow> fault + CBlockIndex option" where
  "GetAncestor b height =
     (if height > nHeight b \<or> height < 0 then Inr None
      else case pprev_steps (nat (nHeight b - height)) b of
             Inl e \<Rightarrow> Inl e
           | Inr a \<Rightarrow> Inr (Some a))"

text \<open>
  The expression \<^verbatim>\<open>p->GetAncestor(p->nHeight - ((p->nHeight + 1) % nPeriod))\<close> of lines 22,
  108 and 148: the last block of the period before the one \<open>p\<close>'s successor lies in.
  \<^verbatim>\<open>%\<close> truncates towards zero (\<open>smod\<close>) and is undefined for a zero divisor.
\<close>

definition EndOfPrevPeriod :: "int \<Rightarrow> CBlockIndex \<Rightarrow> fault + CBlockIndex option" where
  "EndOfPrevPeriod n p =
     (if n = 0 then Inl DivisionByZero
      else GetAncestor p (nHeight p - ((nHeight p + 1) smod n)))"

text \<open>
  Lines 27 to 40 of \<^verbatim>\<open>UpdateCacheState\<close>: walk backwards in steps of \<open>nPeriod\<close> until a
  cached entry, the null pointer or an entry before the start time. The vector
  \<open>vToCompute\<close> is the list with its back at the head. The loop does not end on an entry
  that is its own \<open>nPeriod\<close>-th ancestor (a period of zero), so not returning is \<open>None\<close>.
\<close>

partial_function (option) walk_back ::
  "BIP9Deployment \<Rightarrow> ThresholdConditionCache \<Rightarrow> CBlockIndex option \<Rightarrow> CBlockIndex list
     \<Rightarrow> (fault + (ThresholdConditionCache \<times> CBlockIndex option \<times> CBlockIndex list)) option"
where
  "walk_back bip cache pindexPrev vToCompute =
     (if cache pindexPrev \<noteq> None then Some (Inr (cache, pindexPrev, vToCompute))
      else case pindexPrev of
        None \<Rightarrow> Some (Inr (cache(None \<mapsto> DEFINED), None, vToCompute))
      | Some b \<Rightarrow>
          if GetMedianTimePast b < nStartTime bip
          then Some (Inr (cache(Some b \<mapsto> DEFINED), Some b, vToCompute))
          else (case GetAncestor b (nHeight b - nPeriod bip) of
                  Inl e \<Rightarrow> Some (Inl e)
                | Inr q \<Rightarrow> walk_back bip cache q (b # vToCompute)))"

declare walk_back.simps [code]

text \<open>
  Lines 67 to 74: the counting loop of the \<open>STARTED\<close> case. \<open>Condition\<close> is the virtual
  method of the abstract checker; it dereferences its argument, and an override whose
  behaviour is undefined on an entry returns a fault there, which the loop passes on.
\<close>

function count_loop ::
  "(CBlockIndex \<Rightarrow> fault + bool) \<Rightarrow> int \<Rightarrow> int \<Rightarrow> CBlockIndex option \<Rightarrow> int
     \<Rightarrow> fault + int"
where
  "count_loop Condition n i pindexCount cnt =
     (if i < n then
        (case pindexCount of
           None \<Rightarrow> Inl NullDereference
         | Some b \<Rightarrow>
             (case Condition b of
                Inl e \<Rightarrow> Inl e
              | Inr c \<Rightarrow>
                  count_loop Condition n (i + 1) (pprev b) (if c then cnt + 1 else cnt)))
      else Inr cnt)"
  by pat_completeness auto
termination
  by (relation "measure (\<lambda>(C, n, i, p, c). nat (n - i))") auto

text \<open>Lines 48 to 90: the switch on the state, giving \<open>stateNext\<close>.\<close>

definition stateNext ::
  "BIP9Deployment \<Rightarrow> (CBlockIndex \<Rightarrow> fault + bool) \<Rightarrow> ThresholdState \<Rightarrow> CBlockIndex
     \<Rightarrow> fault + ThresholdState"
where
  "stateNext bip Condition state pindexPrev =
     (case state of
        DEFINED \<Rightarrow>
          if GetMedianTimePast pindexPrev \<ge> nTimeout bip then Inr FAILED
          else if GetMedianTimePast pindexPrev \<ge> nStartTime bip then Inr STARTED
          else Inr state
      | STARTED \<Rightarrow>
          if GetMedianTimePast pindexPrev \<ge> nTimeout bip then Inr FAILED
          else (case count_loop Condition (nPeriod bip) 0 (Some pindexPrev) 0 of
                  Inl e \<Rightarrow> Inl e
                | Inr cnt \<Rightarrow> if cnt \<ge> threshold bip then Inr LOCKED_IN else Inr state)
      | LOCKED_IN \<Rightarrow> Inr ACTIVE
      | FAILED \<Rightarrow> Inr state
      | ACTIVE \<Rightarrow> Inr state)"

text \<open>Lines 47 to 92: unwind the stack, caching each state.\<close>

fun walk_forward ::
  "BIP9Deployment \<Rightarrow> (CBlockIndex \<Rightarrow> fault + bool) \<Rightarrow> ThresholdConditionCache
     \<Rightarrow> ThresholdState \<Rightarrow> CBlockIndex list
     \<Rightarrow> fault + (ThresholdState \<times> ThresholdConditionCache)"
where
  "walk_forward bip Condition cache state [] = Inr (state, cache)"
| "walk_forward bip Condition cache state (pindexPrev # vToCompute) =
     (case stateNext bip Condition state pindexPrev of
        Inl e \<Rightarrow> Inl e
      | Inr s \<Rightarrow> walk_forward bip Condition (cache(Some pindexPrev \<mapsto> s)) s vToCompute)"

text \<open>
  \<^verbatim>\<open>AbstractThresholdConditionChecker::UpdateCacheState\<close>. The result is the returned state
  and the cache as the call leaves it.
\<close>

definition UpdateCacheState ::
  "versionbits_h \<Rightarrow> BIP9Deployment \<Rightarrow> (CBlockIndex \<Rightarrow> fault + bool) \<Rightarrow> CBlockIndex option
     \<Rightarrow> ThresholdConditionCache \<Rightarrow> (fault + (ThresholdState \<times> ThresholdConditionCache)) option"
where
  "UpdateCacheState K bip Condition pindexPrev cache =
     (if nStartTime bip = ALWAYS_ACTIVE K then Some (Inr (ACTIVE, cache))
      else case (case pindexPrev of
                   None \<Rightarrow> Inr None
                 | Some b \<Rightarrow> EndOfPrevPeriod (nPeriod bip) b) of
        Inl e \<Rightarrow> Some (Inl e)
      | Inr p \<Rightarrow>
          (case walk_back bip cache p [] of
             None \<Rightarrow> None
           | Some (Inl e) \<Rightarrow> Some (Inl e)
           | Some (Inr (cache1, p1, vToCompute)) \<Rightarrow>
               (case cache1 p1 of
                  None \<Rightarrow> Some (Inl AssertionFailed)
                | Some state \<Rightarrow> Some (walk_forward bip Condition cache1 state vToCompute))))"



text \<open>
  Lines 152 to 155 of \<^verbatim>\<open>StartingHeightOfBlockIndexState\<close>: walk back while the previous
  period has the same state.
\<close>

partial_function (option) since_loop ::
  "versionbits_h \<Rightarrow> BIP9Deployment \<Rightarrow> (CBlockIndex \<Rightarrow> fault + bool) \<Rightarrow> ThresholdState
     \<Rightarrow> CBlockIndex
     \<Rightarrow> CBlockIndex option \<Rightarrow> ThresholdConditionCache
     \<Rightarrow> (fault + (CBlockIndex \<times> ThresholdConditionCache)) option"
where
  "since_loop K bip Condition initialState pindexPrev previousPeriodParent cache =
     (case previousPeriodParent of
        None \<Rightarrow> Some (Inr (pindexPrev, cache))
      | Some pp \<Rightarrow>
          (case UpdateCacheState K bip Condition (Some pp) cache of
             None \<Rightarrow> None
           | Some (Inl e) \<Rightarrow> Some (Inl e)
           | Some (Inr (s, cache1)) \<Rightarrow>
               if s = initialState then
                 (case GetAncestor pp (nHeight pp - nPeriod bip) of
                    Inl e \<Rightarrow> Some (Inl e)
                  | Inr q \<Rightarrow> since_loop K bip Condition initialState pp q cache1)
               else Some (Inr (pindexPrev, cache1))))"

declare since_loop.simps [code]

definition StartingHeightOfBlockIndexState ::
  "versionbits_h \<Rightarrow> BIP9Deployment \<Rightarrow> (CBlockIndex \<Rightarrow> fault + bool) \<Rightarrow> CBlockIndex option
     \<Rightarrow> ThresholdConditionCache \<Rightarrow> (fault + (int \<times> ThresholdConditionCache)) option"
where
  "StartingHeightOfBlockIndexState K bip Condition pindexPrev cache =
     (if nStartTime bip = ALWAYS_ACTIVE K then Some (Inr (0, cache))
      else case UpdateCacheState K bip Condition pindexPrev cache of
        None \<Rightarrow> None
      | Some (Inl e) \<Rightarrow> Some (Inl e)
      | Some (Inr (initialState, cache1)) \<Rightarrow>
          if initialState = DEFINED then Some (Inr (0, cache1))
          else (case pindexPrev of
                  None \<Rightarrow> Some (Inl NullDereference)
                | Some b \<Rightarrow>
                    (case EndOfPrevPeriod (nPeriod bip) b of
                       Inl e \<Rightarrow> Some (Inl e)
                     | Inr None \<Rightarrow> Some (Inl NullDereference)
                     | Inr (Some a) \<Rightarrow>
                         (case GetAncestor a (nHeight a - nPeriod bip) of
                            Inl e \<Rightarrow> Some (Inl e)
                          | Inr previousPeriodParent \<Rightarrow>
                              (case since_loop K bip Condition initialState a
                                      previousPeriodParent cache1 of
                                 None \<Rightarrow> None
                               | Some (Inl e) \<Rightarrow> Some (Inl e)
                               | Some (Inr (p, cache2)) \<Rightarrow>
                                   Some (Inr (nHeight p + 1, cache2)))))))"

text \<open>
  \<^verbatim>\<open>VersionBitsConditionChecker::Mask\<close> (line 175): \<^verbatim>\<open>((uint32_t)1) << bip_.bit\<close>. The
  shift of a 32-bit value is defined for a count below 32 only; for any other count the
  behaviour is undefined, a fault of the model. The bit is the descriptor's \<open>0..28\<close> of
  section 3 of the specification, a natural number.
\<close>

definition Mask :: "BIP9Deployment \<Rightarrow> fault + 32 word" where
  "Mask bip = (if bit bip < 32 then Inr (push_bit (bit bip) 1) else Inl UndefinedShift)"

text \<open>
  \<^verbatim>\<open>VersionBitsConditionChecker::Condition\<close> (lines 168 to 171). \<^verbatim>\<open>&&\<close> evaluates its right
  operand, and with it \<^verbatim>\<open>Mask()\<close>, only when the top bits match.
\<close>

definition VersionBitsCondition ::
  "versionbits_h \<Rightarrow> BIP9Deployment \<Rightarrow> CBlockIndex \<Rightarrow> fault + bool"
where
  "VersionBitsCondition K bip pindex =
     (if (nVersion pindex AND VERSIONBITS_TOP_MASK K) = VERSIONBITS_TOP_BITS K
      then (case Mask bip of
              Inl e \<Rightarrow> Inl e
            | Inr m \<Rightarrow> Inr ((nVersion pindex AND m) \<noteq> 0))
      else Inr False)"



definition VersionBitsStateSinceHeight ::
  "versionbits_h \<Rightarrow> BIP9Deployment \<Rightarrow> CBlockIndex option \<Rightarrow> ThresholdConditionCache
     \<Rightarrow> (fault + (int \<times> ThresholdConditionCache)) option"
where
  "VersionBitsStateSinceHeight K bip pindexPrev cache =
     StartingHeightOfBlockIndexState K bip (VersionBitsCondition K bip) pindexPrev cache"

section \<open>Versionbits: chains and the specification's table\<close>

text \<open>
  A block index entry is well formed when heights count the ancestors: the genesis entry
  has height 0 and every other entry is one above its \<open>pprev\<close>.
\<close>

fun wf_index :: "CBlockIndex \<Rightarrow> bool" where
  "wf_index (CBlockIndex pp h v t) =
     (case pp of None \<Rightarrow> h = 0 | Some q \<Rightarrow> h = nHeight q + 1 \<and> wf_index q)"

text \<open>The entry and its ancestors, nearest first.\<close>

fun ancestry :: "CBlockIndex \<Rightarrow> CBlockIndex list" where
  "ancestry (CBlockIndex pp h v t) =
     CBlockIndex pp h v t # (case pp of None \<Rightarrow> [] | Some q \<Rightarrow> ancestry q)"

text \<open>Median time past never decreases from an entry to its successor.\<close>

fun mtp_monotone :: "CBlockIndex \<Rightarrow> bool" where
  "mtp_monotone (CBlockIndex pp h v t) =
     (case pp of None \<Rightarrow> True | Some q \<Rightarrow> GetMedianTimePast q \<le> t \<and> mtp_monotone q)"

text \<open>
  The specification's words (section 4.5): the count of \<open>Condition(b)\<close> over the \<open>n\<close>
  blocks ending at \<open>idx\<close> (inclusive), and the transition table.
\<close>

definition Condition_count :: "(CBlockIndex \<Rightarrow> bool) \<Rightarrow> int \<Rightarrow> CBlockIndex \<Rightarrow> int" where
  "Condition_count Condition n idx = int (length (filter Condition (take (nat n) (ancestry idx))))"

definition Transition_table ::
  "BIP9Deployment \<Rightarrow> (CBlockIndex \<Rightarrow> bool) \<Rightarrow> ThresholdState \<Rightarrow> CBlockIndex \<Rightarrow> ThresholdState"
where
  "Transition_table bip Condition s idx =
     (let mtp = GetMedianTimePast idx in
      case s of
        DEFINED \<Rightarrow>
          if mtp \<ge> nTimeout bip then FAILED
          else if mtp \<ge> nStartTime bip then STARTED
          else DEFINED
      | STARTED \<Rightarrow>
          if mtp \<ge> nTimeout bip then FAILED
          else if Condition_count Condition (nPeriod bip) idx \<ge> threshold bip then LOCKED_IN
          else STARTED
      | LOCKED_IN \<Rightarrow> ACTIVE
      | ACTIVE \<Rightarrow> ACTIVE
      | FAILED \<Rightarrow> FAILED)"

text \<open>
  The specification's words: the state of \<open>indexPrev\<close> recomputed without a cache, from
  the genesis parent (\<open>Defined\<close>) by the transition table at every aligned block, the
  last block of a period, whose height \<open>h\<close> has \<open>(h + 1) mod n = 0\<close>.
\<close>

fun table_state ::
  "BIP9Deployment \<Rightarrow> (CBlockIndex \<Rightarrow> bool) \<Rightarrow> CBlockIndex option \<Rightarrow> ThresholdState"
where
  "table_state bip Condition None = DEFINED"
| "table_state bip Condition (Some (CBlockIndex pp h v t)) =
     (if (h + 1) mod nPeriod bip = 0
      then Transition_table bip Condition (table_state bip Condition pp) (CBlockIndex pp h v t)
      else table_state bip Condition pp)"

text \<open>
  The state the source computes for \<open>indexPrev\<close> from an empty cache: as the table does,
  but an aligned block before the start time is \<open>DEFINED\<close> whatever came before it (line
  33).
\<close>

fun period_state ::
  "BIP9Deployment \<Rightarrow> (CBlockIndex \<Rightarrow> bool) \<Rightarrow> CBlockIndex option \<Rightarrow> ThresholdState"
where
  "period_state bip Condition None = DEFINED"
| "period_state bip Condition (Some (CBlockIndex pp h v t)) =
     (if (h + 1) mod nPeriod bip = 0
      then (if t < nStartTime bip then DEFINED
            else Transition_table bip Condition (period_state bip Condition pp)
                   (CBlockIndex pp h v t))
      else period_state bip Condition pp)"

text \<open>
  A cache is consistent when the null pointer is mapped to \<open>DEFINED\<close> only and every other
  key is the last block of a period and is mapped to the state of its period.
\<close>

definition cache_ok ::
  "BIP9Deployment \<Rightarrow> (CBlockIndex \<Rightarrow> bool) \<Rightarrow> ThresholdConditionCache \<Rightarrow> bool"
where
  "cache_ok bip Condition cache =
     (\<forall>k s. cache k = Some s \<longrightarrow>
        s = period_state bip Condition k \<and>
        (case k of None \<Rightarrow> True | Some b \<Rightarrow> (nHeight b + 1) mod nPeriod bip = 0))"


section \<open>Versionbits: auxiliary notions of the proofs\<close>

text \<open>A pointer is well formed when it is null or points to a well-formed entry.\<close>

definition wf_ptr :: "CBlockIndex option \<Rightarrow> bool" where
  "wf_ptr p = (case p of None \<Rightarrow> True | Some b \<Rightarrow> wf_index b)"

definition mtp_monotone_ptr :: "CBlockIndex option \<Rightarrow> bool" where
  "mtp_monotone_ptr p = (case p of None \<Rightarrow> True | Some b \<Rightarrow> mtp_monotone b)"

text \<open>
  The nearest entry at or below \<open>p\<close> that is the last block of a period, found by the
  heights alone; on a well-formed chain it is what \<open>EndOfPrevPeriod\<close> returns.
\<close>

fun epp :: "int \<Rightarrow> CBlockIndex option \<Rightarrow> CBlockIndex option" where
  "epp n None = None"
| "epp n (Some (CBlockIndex pp h v t)) =
     (if (h + 1) mod n = 0 then Some (CBlockIndex pp h v t) else epp n pp)"

definition anc :: "CBlockIndex option \<Rightarrow> CBlockIndex list" where
  "anc p = (case p of None \<Rightarrow> [] | Some b \<Rightarrow> ancestry b)"

definition aligned_ptr :: "int \<Rightarrow> CBlockIndex option \<Rightarrow> bool" where
  "aligned_ptr n p =
     (case p of None \<Rightarrow> True | Some b \<Rightarrow> wf_index b \<and> (nHeight b + 1) mod n = 0)"

text \<open>
  The order of the threshold states that a chain respects: out of \<open>DEFINED\<close> for good,
  and \<open>ACTIVE\<close> and \<open>FAILED\<close> for good.
\<close>

definition progress :: "ThresholdState \<Rightarrow> ThresholdState \<Rightarrow> bool" where
  "progress s s' = ((s \<noteq> DEFINED \<longrightarrow> s' \<noteq> DEFINED) \<and> (s = ACTIVE \<longrightarrow> s' = ACTIVE)
                    \<and> (s = FAILED \<longrightarrow> s' = FAILED))"

text \<open>
  A condition that is defined on every entry: the override returns the value of a predicate
  and has no undefined behaviour.
\<close>

definition total_condition :: "(CBlockIndex \<Rightarrow> bool) \<Rightarrow> CBlockIndex \<Rightarrow> fault + bool" where
  "total_condition Condition b = Inr (Condition b)"

text \<open>
  The specification's words for the condition of versionbits (section 4.5), with the
  shift written out; the code's \<open>VersionBitsCondition\<close> returns it for a bit below 32.
\<close>

definition Condition_spec :: "versionbits_h \<Rightarrow> BIP9Deployment \<Rightarrow> CBlockIndex \<Rightarrow> bool" where
  "Condition_spec K bip b =
     ((nVersion b AND VERSIONBITS_TOP_MASK K) = VERSIONBITS_TOP_BITS K
      \<and> (nVersion b AND push_bit (bit bip) 1) \<noteq> 0)"

text \<open>
  The specification's words for the state recomputed without a cache (section 4.5, cache
  population): \<open>Active\<close> for an always-active deployment, the table from the genesis parent
  otherwise.
\<close>

definition recomputed_state ::
  "versionbits_h \<Rightarrow> BIP9Deployment \<Rightarrow> (CBlockIndex \<Rightarrow> bool) \<Rightarrow> CBlockIndex option
     \<Rightarrow> ThresholdState"
where
  "recomputed_state K bip Condition p =
     (if nStartTime bip = ALWAYS_ACTIVE K then ACTIVE else table_state bip Condition p)"

text \<open>
  The two operations that write to a deployment's cache, and a sequence of them run on
  one cache, each on the cache the one before left.
\<close>

datatype operation = StateOf "CBlockIndex option" | SinceHeightOf "CBlockIndex option"

fun op_ptr :: "operation \<Rightarrow> CBlockIndex option" where
  "op_ptr (StateOf p) = p"
| "op_ptr (SinceHeightOf p) = p"

fun run_ops ::
  "versionbits_h \<Rightarrow> BIP9Deployment \<Rightarrow> (CBlockIndex \<Rightarrow> fault + bool) \<Rightarrow> operation list
     \<Rightarrow> ThresholdConditionCache \<Rightarrow> (fault + ThresholdConditionCache) option"
where
  "run_ops K bip Condition [] cache = Some (Inr cache)"
| "run_ops K bip Condition (StateOf p # ops) cache =
     (case UpdateCacheState K bip Condition p cache of
        None \<Rightarrow> None
      | Some (Inl e) \<Rightarrow> Some (Inl e)
      | Some (Inr (s, cache1)) \<Rightarrow> run_ops K bip Condition ops cache1)"
| "run_ops K bip Condition (SinceHeightOf p # ops) cache =
     (case StartingHeightOfBlockIndexState K bip Condition p cache of
        None \<Rightarrow> None
      | Some (Inl e) \<Rightarrow> Some (Inl e)
      | Some (Inr (h, cache1)) \<Rightarrow> run_ops K bip Condition ops cache1)"

section \<open>Versionbits: example chains\<close>

text \<open>
  The constants as Bitcoin-derived nodes set them, a deployment on bit 0 with a period of
  two blocks, and two chains whose median time past never decreases: \<open>g\<close>, and \<open>l\<close> for a
  deployment whose timeout precedes its start.
\<close>

definition ex_K :: versionbits_h where
  "ex_K = \<lparr>ALWAYS_ACTIVE = - 1, VERSIONBITS_TOP_BITS = 0x20000000,
            VERSIONBITS_TOP_MASK = 0xE0000000\<rparr>"

definition ex_bip :: BIP9Deployment where
  "ex_bip = \<lparr>bit = 0, nStartTime = 100, nTimeout = 1000, nPeriod = 2, threshold = 2\<rparr>"

definition ex_bip_late :: BIP9Deployment where
  "ex_bip_late = \<lparr>bit = 0, nStartTime = 100, nTimeout = 60, nPeriod = 2, threshold = 2\<rparr>"

definition g0 :: CBlockIndex where "g0 = CBlockIndex None 0 0x20000001 50"
definition g1 :: CBlockIndex where "g1 = CBlockIndex (Some g0) 1 0x20000001 150"
definition g2 :: CBlockIndex where "g2 = CBlockIndex (Some g1) 2 0x20000001 160"
definition g3 :: CBlockIndex where "g3 = CBlockIndex (Some g2) 3 0x20000001 170"
definition g4 :: CBlockIndex where "g4 = CBlockIndex (Some g3) 4 0x20000001 180"
definition g5 :: CBlockIndex where "g5 = CBlockIndex (Some g4) 5 0x20000000 190"

definition l0 :: CBlockIndex where "l0 = CBlockIndex None 0 0x20000001 70"
definition l1 :: CBlockIndex where "l1 = CBlockIndex (Some l0) 1 0x20000001 70"

lemmas ex_defs = ex_K_def ex_bip_def ex_bip_late_def g0_def g1_def g2_def g3_def g4_def g5_def
  l0_def l1_def

lemmas eval_defs = UpdateCacheState_def EndOfPrevPeriod_def GetAncestor_def
  walk_back.simps stateNext_def signed_modulo_int_def VersionBitsCondition_def Mask_def
  eval_nat_numeral

section \<open>Chain state and block tree databases: the operations\<close>

text \<open>
  Modelled from the spec: the operations of the engine (section 4.1). Keys are ordered
  bytewise, a shorter key before its extensions; a put replaces the value of its key or
  inserts the record at its place, a delete removes the record of its key, and a batch is
  applied in the order of its operations.
\<close>

fun bytes_less :: "bytes \<Rightarrow> bytes \<Rightarrow> bool" where
  "bytes_less [] [] = False"
| "bytes_less [] (y # ys) = True"
| "bytes_less (x # xs) [] = False"
| "bytes_less (x # xs) (y # ys) = (x < y \<or> (x = y \<and> bytes_less xs ys))"

fun db_put :: "bytes \<Rightarrow> bytes \<Rightarrow> leveldb \<Rightarrow> leveldb" where
  "db_put k v [] = [(k, v)]"
| "db_put k v ((k', v') # db) =
     (if k = k' then (k, v) # db
      else if bytes_less k k' then (k, v) # (k', v') # db
      else (k', v') # db_put k v db)"

definition db_delete :: "bytes \<Rightarrow> leveldb \<Rightarrow> leveldb" where
  "db_delete k db = filter (\<lambda>r. fst r \<noteq> k) db"

fun apply_batch :: "leveldb \<Rightarrow> CLevelDBBatch \<Rightarrow> leveldb" where
  "apply_batch db [] = db"
| "apply_batch db (Put k v # ops) = apply_batch (db_put k v db) ops"
| "apply_batch db (Delete k # ops) = apply_batch (db_delete k db) ops"

text \<open>
  Modelled from the spec: \<^verbatim>\<open>WriteBatch\<close> applies all of the batch or nothing (ok or I/O
  error). Whether the engine accepts the write is not decided by the program; \<open>io_ok\<close> is
  that outcome.
\<close>

definition WriteBatch :: "leveldb \<Rightarrow> CLevelDBBatch \<Rightarrow> bool \<Rightarrow> bool \<times> leveldb" where
  "WriteBatch db batch io_ok = (if io_ok then (True, apply_batch db batch) else (False, db))"

text \<open>
  Modelled from the spec: \<^verbatim>\<open>Read\<close> gives the value or a miss; a miss, or a value that does
  not deserialize, is \<open>None\<close> (the call returns false). \<^verbatim>\<open>Exists\<close> tells whether the key
  has a record.
\<close>

definition Read :: "leveldb \<Rightarrow> bytes \<Rightarrow> (bytes \<Rightarrow> 'a option) \<Rightarrow> 'a option" where
  "Read db key unser = (case map_of db key of None \<Rightarrow> None | Some v \<Rightarrow> unser v)"

definition Exists :: "leveldb \<Rightarrow> bytes \<Rightarrow> bool" where
  "Exists db key = (map_of db key \<noteq> None)"

text \<open>
  Modelled from the spec: \<^verbatim>\<open>Seek\<close> positions the cursor at the first key that is not
  below the target; the cursor is the list of the records from there on.
\<close>

definition Seek :: "leveldb \<Rightarrow> bytes \<Rightarrow> leveldb" where
  "Seek db target = dropWhile (\<lambda>r. bytes_less (fst r) target) db"

text \<open>
  Keys (section 6 of the specification): a one-byte tag followed by the serialization of
  the structured remainder, or the tag alone.
\<close>

definition tag :: "char \<Rightarrow> 8 word" where
  "tag c = of_char c"

definition DB_ADDRESSINDEX :: char where "DB_ADDRESSINDEX = CHR ''a''"
definition DB_SPENTINDEX :: char where "DB_SPENTINDEX = CHR ''p''"
definition DB_ADDRESSUNSPENTINDEX :: char where "DB_ADDRESSUNSPENTINDEX = CHR ''u''"
definition DB_TXINDEX :: char where "DB_TXINDEX = CHR ''t''"
definition DB_BARETXIDINDEX :: char where "DB_BARETXIDINDEX = CHR ''T''"

definition hash_key :: "txdb_h \<Rightarrow> char \<Rightarrow> uint256 \<Rightarrow> bytes" where
  "hash_key E c h = tag c # ser_uint256 E h"

text \<open>Modelled from the spec: a coins record is pruned when all its outputs are null.\<close>

definition IsPruned :: "CCoins \<Rightarrow> bool" where
  "IsPruned c = list_all (\<lambda>out. out = NullTxOut) (vout c)"

subsection \<open>The coins view\<close>

definition BatchWriteCoins :: "txdb_h \<Rightarrow> CLevelDBBatch \<Rightarrow> uint256 \<Rightarrow> CCoins \<Rightarrow> CLevelDBBatch" where
  "BatchWriteCoins E batch hash c =
     (if IsPruned c then batch @ [Delete (hash_key E (CHR ''c'') hash)]
      else batch @ [Put (hash_key E (CHR ''c'') hash) (ser_coins E c)])"

definition BatchWriteHashBestChain :: "txdb_h \<Rightarrow> CLevelDBBatch \<Rightarrow> uint256 \<Rightarrow> CLevelDBBatch" where
  "BatchWriteHashBestChain E batch hash = batch @ [Put [tag (CHR ''B'')] (ser_uint256 E hash)]"

definition GetCoins :: "txdb_h \<Rightarrow> leveldb \<Rightarrow> uint256 \<Rightarrow> CCoins option" where
  "GetCoins E db t = Read db (hash_key E (CHR ''c'') t) (unser_coins E)"

definition HaveCoins :: "txdb_h \<Rightarrow> leveldb \<Rightarrow> uint256 \<Rightarrow> bool" where
  "HaveCoins E db t = Exists db (hash_key E (CHR ''c'') t)"

definition GetBestBlock :: "txdb_h \<Rightarrow> leveldb \<Rightarrow> uint256" where
  "GetBestBlock E db =
     (case Read db [tag (CHR ''B'')] (unser_uint256 E) of None \<Rightarrow> 0 | Some hashBestChain \<Rightarrow> hashBestChain)"

text \<open>
  Lines 81 to 89 of \<^verbatim>\<open>BatchWrite\<close>: the loop visits the entries in turn and erases each one
  from the map after looking at it; the map that remains is the first component of the
  result.
\<close>

fun BatchWrite_loop ::
  "txdb_h \<Rightarrow> CCoinsMap \<Rightarrow> CLevelDBBatch \<Rightarrow> nat \<Rightarrow> nat \<Rightarrow> CCoinsMap \<times> CLevelDBBatch \<times> nat \<times> nat"
where
  "BatchWrite_loop E [] batch cnt changed = ([], batch, cnt, changed)"
| "BatchWrite_loop E ((hash, entry) # mapCoins) batch cnt changed =
     (if flags entry AND DIRTY E \<noteq> 0
      then BatchWrite_loop E mapCoins (BatchWriteCoins E batch hash (coins entry)) (cnt + 1)
             (changed + 1)
      else BatchWrite_loop E mapCoins batch (cnt + 1) changed)"

text \<open>
  \<^verbatim>\<open>CCoinsViewDB::BatchWrite\<close>: the returned boolean, the database and the cache map after
  the call.
\<close>

definition BatchWrite ::
  "txdb_h \<Rightarrow> leveldb \<Rightarrow> CCoinsMap \<Rightarrow> uint256 \<Rightarrow> bool \<Rightarrow> bool \<times> leveldb \<times> CCoinsMap"
where
  "BatchWrite E db mapCoins hashBlock' io_ok =
     (case BatchWrite_loop E mapCoins [] 0 0 of
        (mapCoins1, batch, cnt, changed) \<Rightarrow>
          (let batch = (if hashBlock' \<noteq> 0 then BatchWriteHashBestChain E batch hashBlock'
                        else batch)
           in case WriteBatch db batch io_ok of (ok, db1) \<Rightarrow> (ok, db1, mapCoins1)))"

text \<open>
  Lines 171 to 179 of \<^verbatim>\<open>GetStats\<close>: the outputs of one coins record, written to the
  hash writer \<open>ss\<close>.
\<close>

fun GetStats_outputs ::
  "txdb_h \<Rightarrow> CTxOut list \<Rightarrow> nat \<Rightarrow> bytes \<Rightarrow> nat \<Rightarrow> int \<Rightarrow> bytes \<times> nat \<times> int"
where
  "GetStats_outputs E [] i ss nOutputs nTotalAmount' = (ss, nOutputs, nTotalAmount')"
| "GetStats_outputs E (out # outs) i ss nOutputs nTotalAmount' =
     (if out \<noteq> NullTxOut
      then GetStats_outputs E outs (i + 1)
             (ss @ ser_varint E (int (i + 1)) @ ser_txout E out) (nOutputs + 1)
             (nTotalAmount' + nValue out)
      else GetStats_outputs E outs (i + 1) ss nOutputs nTotalAmount')"

text \<open>
  Lines 152 to 187: the scan over all records from the first. \<open>Inl\<close> is the exception
  caught at line 184, on which the function returns false, with the statistics as they are
  then.
\<close>

fun GetStats_scan ::
  "txdb_h \<Rightarrow> leveldb \<Rightarrow> bytes \<Rightarrow> CCoinsStats \<Rightarrow> int
     \<Rightarrow> CCoinsStats + (bytes \<times> CCoinsStats \<times> int)"
where
  "GetStats_scan E [] ss stats nTotalAmount' = Inr (ss, stats, nTotalAmount')"
| "GetStats_scan E ((slKey, slValue) # cursor) ss stats nTotalAmount' =
     (case slKey of
        [] \<Rightarrow> Inl stats
      | chType # ssKey \<Rightarrow>
          if chType = tag (CHR ''c'') then
            (case unser_coins E slValue of
               None \<Rightarrow> Inl stats
             | Some c \<Rightarrow>
                 (case unser_uint256 E ssKey of
                    None \<Rightarrow> Inl stats
                  | Some txhash' \<Rightarrow>
                      (let ss = ss @ ser_uint256 E txhash';
                           ss = ss @ ser_varint E (CCoins.nVersion c);
                           ss = ss @ [tag (if fCoinBase c then CHR ''c'' else CHR ''n'')];
                           ss = ss @ ser_varint E (CCoins.nHeight c);
                           stats = stats\<lparr>nTransactions := nTransactions stats + 1\<rparr>
                       in case GetStats_outputs E (vout c) 0 ss (nTransactionOutputs stats)
                                 nTotalAmount' of
                            (ss, nOutputs, nTotalAmount') \<Rightarrow>
                              (let stats = stats\<lparr>nTransactionOutputs := nOutputs,
                                     nSerializedSize :=
                                       nSerializedSize stats + (32 + length slValue)\<rparr>;
                                   ss = ss @ ser_varint E 0
                               in GetStats_scan E cursor ss stats nTotalAmount'))))
          else GetStats_scan E cursor ss stats nTotalAmount')"

text \<open>
  \<^verbatim>\<open>CCoinsViewDB::GetStats\<close>: the returned boolean and the statistics as the call leaves
  them. The cursor starts at the first record. \<open>mapBlockIndex\<close> is the global block map;
  line 188 dereferences what \<^verbatim>\<open>find\<close> returns.
\<close>

definition GetStats ::
  "txdb_h \<Rightarrow> leveldb \<Rightarrow> (uint256 \<rightharpoonup> CBlockIndex) \<Rightarrow> CCoinsStats \<Rightarrow> fault + (bool \<times> CCoinsStats)"
where
  "GetStats E db mapBlockIndex stats =
     (let stats = stats\<lparr>hashBlock := GetBestBlock E db\<rparr>;
          ss = ser_uint256 E (hashBlock stats)
      in case GetStats_scan E db ss stats 0 of
           Inl stats \<Rightarrow> Inr (False, stats)
         | Inr (ss, stats, nTotalAmount') \<Rightarrow>
             (case mapBlockIndex (GetBestBlock E db) of
                None \<Rightarrow> Inl EndIteratorDereference
              | Some pindex \<Rightarrow>
                  Inr (True, stats\<lparr>CCoinsStats.nHeight := nHeight pindex,
                                   hashSerialized := SHA256d E ss,
                                   nTotalAmount := nTotalAmount'\<rparr>)))"

subsection \<open>The transaction index\<close>




subsection \<open>The address indexes\<close>

text \<open>\<^verbatim>\<open>GetKey\<close>: false when the key does not deserialize.\<close>

definition GetKey :: "(bytes \<Rightarrow> 'k option) \<Rightarrow> bytes \<Rightarrow> 'k option" where
  "GetKey unser slKey = unser slKey"

text \<open>
  Lines 356 to 377 of \<^verbatim>\<open>ReadAddressUnspentIndex\<close>: the returned boolean and the vector.
  The interruption point of the loop is not modelled.
\<close>

fun ReadAddressUnspentIndex_scan ::
  "txdb_h \<Rightarrow> uint160 \<Rightarrow> leveldb \<Rightarrow> (CAddressUnspentKey \<times> CAddressUnspentValue) list
     \<Rightarrow> bool \<times> (CAddressUnspentKey \<times> CAddressUnspentValue) list"
where
  "ReadAddressUnspentIndex_scan E addressHash [] unspentOutputs = (True, unspentOutputs)"
| "ReadAddressUnspentIndex_scan E addressHash ((slKey, slValue) # cursor) unspentOutputs =
     (case GetKey (unser_unspent_key E) slKey of
        None \<Rightarrow> (True, unspentOutputs)
      | Some key \<Rightarrow>
          if fst key = DB_ADDRESSUNSPENTINDEX
             \<and> CAddressUnspentKey.hashBytes (snd key) = addressHash
          then (case unser_unspent_value E slValue of
                  None \<Rightarrow> (False, unspentOutputs)
                | Some nValue' \<Rightarrow>
                    ReadAddressUnspentIndex_scan E addressHash cursor
                      (unspentOutputs @ [(snd key, nValue')]))
          else (True, unspentOutputs))"

definition ReadAddressUnspentIndex ::
  "txdb_h \<Rightarrow> leveldb \<Rightarrow> uint160 \<Rightarrow> int \<Rightarrow> (CAddressUnspentKey \<times> CAddressUnspentValue) list
     \<Rightarrow> bool \<times> (CAddressUnspentKey \<times> CAddressUnspentValue) list"
where
  "ReadAddressUnspentIndex E db addressHash ty unspentOutputs =
     ReadAddressUnspentIndex_scan E addressHash
       (Seek db (ser_iterator_key E (DB_ADDRESSUNSPENTINDEX, ty, addressHash))) unspentOutputs"

text \<open>Lines 420 to 443 of \<^verbatim>\<open>ReadAddressIndex\<close>.\<close>

fun ReadAddressIndex_scan ::
  "txdb_h \<Rightarrow> uint160 \<Rightarrow> int \<Rightarrow> leveldb \<Rightarrow> (CAddressIndexKey \<times> int) list
     \<Rightarrow> bool \<times> (CAddressIndexKey \<times> int) list"
where
  "ReadAddressIndex_scan E addressHash end [] addressIndex = (True, addressIndex)"
| "ReadAddressIndex_scan E addressHash end ((slKey, slValue) # cursor) addressIndex =
     (case GetKey (unser_address_key E) slKey of
        None \<Rightarrow> (True, addressIndex)
      | Some key \<Rightarrow>
          if fst key = DB_ADDRESSINDEX \<and> CAddressIndexKey.hashBytes (snd key) = addressHash
          then if end > 0 \<and> CAddressIndexKey.blockHeight (snd key) > end
               then (True, addressIndex)
               else (case unser_amount E slValue of
                       None \<Rightarrow> (False, addressIndex)
                     | Some nValue' \<Rightarrow>
                         ReadAddressIndex_scan E addressHash end cursor
                           (addressIndex @ [(snd key, nValue')]))
          else (True, addressIndex))"

definition ReadAddressIndex ::
  "txdb_h \<Rightarrow> leveldb \<Rightarrow> uint160 \<Rightarrow> int \<Rightarrow> (CAddressIndexKey \<times> int) list \<Rightarrow> int \<Rightarrow> int
     \<Rightarrow> bool \<times> (CAddressIndexKey \<times> int) list"
where
  "ReadAddressIndex E db addressHash ty addressIndex start end =
     (let ssKey = (if start > 0 \<and> end > 0
                   then ser_iterator_height_key E (DB_ADDRESSINDEX, ty, addressHash, start)
                   else ser_iterator_key E (DB_ADDRESSINDEX, ty, addressHash))
      in ReadAddressIndex_scan E addressHash end (Seek db ssKey) addressIndex)"



section \<open>Chain state and block tree databases: auxiliary notions of the proofs\<close>

text \<open>
  What a batch does to the engine's content, read as a map from keys to values.
\<close>

fun op_key :: "batch_op \<Rightarrow> bytes" where
  "op_key (Put k v) = k"
| "op_key (Delete k) = k"

fun batch_map :: "CLevelDBBatch \<Rightarrow> (bytes \<rightharpoonup> bytes) \<Rightarrow> (bytes \<rightharpoonup> bytes)" where
  "batch_map [] m = m"
| "batch_map (Put k v # ops) m = batch_map ops (m(k \<mapsto> v))"
| "batch_map (Delete k # ops) m = batch_map ops (m(k := None))"

text \<open>
  The specification's words for a flush (section 4.2): for each dirty entry an erase when
  the coins record is fully pruned and a write of the coins record otherwise, in the order
  of the map, then the best-block marker when the hash is not zero.
\<close>

definition coins_op :: "txdb_h \<Rightarrow> uint256 \<times> CCoinsCacheEntry \<Rightarrow> batch_op" where
  "coins_op E x =
     (if IsPruned (coins (snd x)) then Delete (hash_key E (CHR ''c'') (fst x))
      else Put (hash_key E (CHR ''c'') (fst x)) (ser_coins E (coins (snd x))))"

definition flush_batch :: "txdb_h \<Rightarrow> CCoinsMap \<Rightarrow> uint256 \<Rightarrow> CLevelDBBatch" where
  "flush_batch E mapCoins hashBlock' =
     map (coins_op E) (filter (\<lambda>x. flags (snd x) AND DIRTY E \<noteq> 0) mapCoins)
     @ (if hashBlock' \<noteq> 0 then [Put [tag (CHR ''B'')] (ser_uint256 E hashBlock')] else [])"

text \<open>
  The specification's words for the stats scan (section 4.2): per entry the txhash, the
  version, the coinbase flag, the height, each non-null output with its 1-based index and a
  terminating 0; the whole sequence starts with the best-block hash. The total supply is
  the sum of the values of all non-null outputs. \<open>claimed_serialization\<close> is the sequence
  with the total supply at its end, for a serialization of amounts.
\<close>

definition outputs_serialization :: "txdb_h \<Rightarrow> CTxOut list \<Rightarrow> bytes" where
  "outputs_serialization E outs =
     concat (map (\<lambda>x. ser_varint E (int (fst x + 1)) @ ser_txout E (snd x))
               (filter (\<lambda>x. snd x \<noteq> NullTxOut) (zip [0..<length outs] outs)))"

definition entry_serialization :: "txdb_h \<Rightarrow> uint256 \<times> CCoins \<Rightarrow> bytes" where
  "entry_serialization E x =
     ser_uint256 E (fst x) @ ser_varint E (CCoins.nVersion (snd x))
     @ [tag (if fCoinBase (snd x) then CHR ''c'' else CHR ''n'')]
     @ ser_varint E (CCoins.nHeight (snd x))
     @ outputs_serialization E (vout (snd x)) @ ser_varint E 0"

definition canonical_serialization :: "txdb_h \<Rightarrow> uint256 \<Rightarrow> (uint256 \<times> CCoins) list \<Rightarrow> bytes" where
  "canonical_serialization E best entries =
     ser_uint256 E best @ concat (map (entry_serialization E) entries)"

definition output_sum :: "CTxOut list \<Rightarrow> int" where
  "output_sum outs = sum_list (map nValue (filter (\<lambda>out. out \<noteq> NullTxOut) outs))"

definition total_supply :: "(uint256 \<times> CCoins) list \<Rightarrow> int" where
  "total_supply entries = sum_list (map (\<lambda>x. output_sum (vout (snd x))) entries)"

definition claimed_serialization ::
  "txdb_h \<Rightarrow> (int \<Rightarrow> bytes) \<Rightarrow> uint256 \<Rightarrow> (uint256 \<times> CCoins) list \<Rightarrow> bytes" where
  "claimed_serialization E ser_amount best entries =
     canonical_serialization E best entries @ ser_amount (total_supply entries)"

text \<open>
  The coins records of a database, in its order, as the scan decodes them, and the
  records the scan reads without an exception: a key has its type byte, and a coins record
  has a value and a key remainder that deserialize.
\<close>

definition is_coins_record :: "bytes \<times> bytes \<Rightarrow> bool" where
  "is_coins_record r = (case fst r of [] \<Rightarrow> False | chType # ssKey \<Rightarrow> chType = tag (CHR ''c''))"

definition coins_records :: "txdb_h \<Rightarrow> leveldb \<Rightarrow> (uint256 \<times> CCoins) list" where
  "coins_records E db =
     map (\<lambda>r. (the (unser_uint256 E (tl (fst r))), the (unser_coins E (snd r))))
       (filter is_coins_record db)"

definition readable :: "txdb_h \<Rightarrow> bytes \<times> bytes \<Rightarrow> bool" where
  "readable E r =
     (fst r \<noteq> [] \<and>
      (is_coins_record r \<longrightarrow> unser_coins E (snd r) \<noteq> None \<and> unser_uint256 E (tl (fst r)) \<noteq> None))"

text \<open>
  For the range reads: the key the scan seeks, a key that deserializes to the scanned
  address within the height bound, a record the scan appends (such a key and a value that
  deserializes), and what it appends for it.
\<close>

definition address_seek_key :: "txdb_h \<Rightarrow> uint160 \<Rightarrow> int \<Rightarrow> int \<Rightarrow> int \<Rightarrow> bytes" where
  "address_seek_key E addressHash ty start end =
     (if start > 0 \<and> end > 0
      then ser_iterator_height_key E (DB_ADDRESSINDEX, ty, addressHash, start)
      else ser_iterator_key E (DB_ADDRESSINDEX, ty, addressHash))"

definition address_key_in_range :: "txdb_h \<Rightarrow> uint160 \<Rightarrow> int \<Rightarrow> bytes \<Rightarrow> bool" where
  "address_key_in_range E addressHash end k =
     (case unser_address_key E k of
        None \<Rightarrow> False
      | Some key \<Rightarrow> fst key = DB_ADDRESSINDEX \<and> CAddressIndexKey.hashBytes (snd key) = addressHash
                    \<and> \<not> (end > 0 \<and> CAddressIndexKey.blockHeight (snd key) > end))"

definition address_record_ok :: "txdb_h \<Rightarrow> uint160 \<Rightarrow> int \<Rightarrow> bytes \<times> bytes \<Rightarrow> bool" where
  "address_record_ok E addressHash end r =
     (address_key_in_range E addressHash end (fst r) \<and> unser_amount E (snd r) \<noteq> None)"

definition address_record :: "txdb_h \<Rightarrow> bytes \<times> bytes \<Rightarrow> CAddressIndexKey \<times> int" where
  "address_record E r = (snd (the (unser_address_key E (fst r))), the (unser_amount E (snd r)))"

definition unspent_key_in_range :: "txdb_h \<Rightarrow> uint160 \<Rightarrow> bytes \<Rightarrow> bool" where
  "unspent_key_in_range E addressHash k =
     (case unser_unspent_key E k of
        None \<Rightarrow> False
      | Some key \<Rightarrow> fst key = DB_ADDRESSUNSPENTINDEX
                    \<and> CAddressUnspentKey.hashBytes (snd key) = addressHash)"

definition unspent_record_ok :: "txdb_h \<Rightarrow> uint160 \<Rightarrow> bytes \<times> bytes \<Rightarrow> bool" where
  "unspent_record_ok E addressHash r =
     (unspent_key_in_range E addressHash (fst r) \<and> unser_unspent_value E (snd r) \<noteq> None)"

definition unspent_record ::
  "txdb_h \<Rightarrow> bytes \<times> bytes \<Rightarrow> CAddressUnspentKey \<times> CAddressUnspentValue" where
  "unspent_record E r =
     (snd (the (unser_unspent_key E (fst r))), the (unser_unspent_value E (snd r)))"

section \<open>Chain state and block tree databases: an example serialization\<close>

text \<open>
  An instance of the parameters of \<open>txdb_h\<close>, for the concrete inputs below: little-endian
  fixed-width integers, hashes as their 32 bytes, a coins record with one byte per field,
  address keys cut down to the fields the scans read, and the length of the input in place
  of the double SHA256. The theorems hold for every instance.
\<close>

fun le_bytes :: "nat \<Rightarrow> 'a::len word \<Rightarrow> bytes" where
  "le_bytes 0 w = []"
| "le_bytes (Suc n) w = ucast w # le_bytes n (drop_bit 8 w)"

fun le_word :: "bytes \<Rightarrow> 'a::len word" where
  "le_word [] = 0"
| "le_word (b # bs) = ucast b OR push_bit 8 (le_word bs)"

definition ex_unser_uint256 :: "bytes \<Rightarrow> uint256 option" where
  "ex_unser_uint256 bs = (if length bs = 32 then Some (le_word bs) else None)"

definition ex_ser_varint :: "int \<Rightarrow> bytes" where
  "ex_ser_varint n = le_bytes 8 (word_of_int n :: 64 word)"

definition ex_ser_amount :: "int \<Rightarrow> bytes" where
  "ex_ser_amount n = le_bytes 8 (word_of_int n :: 64 word)"

definition ex_unser_amount :: "bytes \<Rightarrow> int option" where
  "ex_unser_amount bs = (if length bs = 8 then Some (sint (le_word bs :: 64 word)) else None)"

definition ex_ser_txout :: "CTxOut \<Rightarrow> bytes" where
  "ex_ser_txout out =
     (case out of
        NullTxOut \<Rightarrow> ex_ser_amount (- 1)
      | CTxOut v s \<Rightarrow> ex_ser_amount v @ le_bytes 1 (word_of_nat (length s) :: 8 word) @ s)"

definition ex_ser_coins :: "CCoins \<Rightarrow> bytes" where
  "ex_ser_coins c =
     (if fCoinBase c then 1 else 0) # word_of_int (CCoins.nHeight c)
       # word_of_int (CCoins.nVersion c)
       # map (\<lambda>out. case out of NullTxOut \<Rightarrow> 255 | CTxOut v s \<Rightarrow> word_of_int v) (vout c)"

definition ex_unser_coins :: "bytes \<Rightarrow> CCoins option" where
  "ex_unser_coins bs =
     (case bs of
        cb # h # ver # outs \<Rightarrow>
          Some \<lparr>fCoinBase = (cb \<noteq> 0),
                vout = map (\<lambda>b. if b = 255 then NullTxOut else CTxOut (uint b) []) outs,
                CCoins.nHeight = uint h, CCoins.nVersion = uint ver\<rparr>
      | _ \<Rightarrow> None)"

definition ex_ser_pos :: "CDiskTxPos \<Rightarrow> bytes" where
  "ex_ser_pos p = le_bytes 4 (nFile p) @ le_bytes 4 (nPos p) @ le_bytes 4 (nTxOffset p)"

definition ex_unser_pos :: "bytes \<Rightarrow> CDiskTxPos option" where
  "ex_unser_pos bs =
     (if length bs = 12
      then Some \<lparr>nFile = le_word (take 4 bs), nPos = le_word (take 4 (drop 4 bs)),
                 nTxOffset = le_word (drop 8 bs)\<rparr>
      else None)"

definition ex_ser_iterator_key :: "char \<times> int \<times> uint160 \<Rightarrow> bytes" where
  "ex_ser_iterator_key x =
     tag (fst x) # le_bytes 4 (word_of_int (fst (snd x)) :: 32 word) @ le_bytes 20 (snd (snd x))"

definition ex_ser_iterator_height_key :: "char \<times> int \<times> uint160 \<times> int \<Rightarrow> bytes" where
  "ex_ser_iterator_height_key x =
     ex_ser_iterator_key (fst x, fst (snd x), fst (snd (snd x)))
     @ le_bytes 4 (word_of_int (snd (snd (snd x))) :: 32 word)"

definition ex_unser_address_key :: "bytes \<Rightarrow> (char \<times> CAddressIndexKey) option" where
  "ex_unser_address_key bs =
     (if length bs = 29
      then Some (char_of (unat (hd bs)),
             \<lparr>CAddressIndexKey.type = uint (le_word (take 4 (drop 1 bs)) :: 32 word),
              CAddressIndexKey.hashBytes = le_word (take 20 (drop 5 bs)),
              CAddressIndexKey.blockHeight = uint (le_word (drop 25 bs) :: 32 word),
              txindex = 0, CAddressIndexKey.txhash = 0, CAddressIndexKey.index = 0,
              spending = False\<rparr>)
      else None)"

definition ex_unser_unspent_key :: "bytes \<Rightarrow> (char \<times> CAddressUnspentKey) option" where
  "ex_unser_unspent_key bs =
     (if length bs = 29
      then Some (char_of (unat (hd bs)),
             \<lparr>CAddressUnspentKey.type = uint (le_word (take 4 (drop 1 bs)) :: 32 word),
              CAddressUnspentKey.hashBytes = le_word (take 20 (drop 5 bs)),
              CAddressUnspentKey.txhash = 0,
              CAddressUnspentKey.index = unat (le_word (drop 25 bs) :: 32 word)\<rparr>)
      else None)"

definition ex_unser_unspent_value :: "bytes \<Rightarrow> CAddressUnspentValue option" where
  "ex_unser_unspent_value bs =
     (if length bs = 12
      then Some \<lparr>satoshis = sint (le_word (take 8 bs) :: 64 word), script = [],
                 CAddressUnspentValue.blockHeight = uint (le_word (drop 8 bs) :: 32 word)\<rparr>
      else None)"

definition ex_hash :: "bytes \<Rightarrow> uint256" where
  "ex_hash bs = word_of_nat (length bs)"

definition ex_E :: txdb_h where
  "ex_E = \<lparr>DIRTY = 1, ser_uint256 = le_bytes 32, unser_uint256 = ex_unser_uint256,
           ser_varint = ex_ser_varint, ser_txout = ex_ser_txout, ser_coins = ex_ser_coins,
           unser_coins = ex_unser_coins, ser_pos = ex_ser_pos, unser_pos = ex_unser_pos,
           ser_iterator_key = ex_ser_iterator_key,
           ser_iterator_height_key = ex_ser_iterator_height_key,
           unser_address_key = ex_unser_address_key, unser_amount = ex_unser_amount,
           unser_unspent_key = ex_unser_unspent_key,
           unser_unspent_value = ex_unser_unspent_value, SHA256d = ex_hash\<rparr>"







text \<open>
  A cache map with a dirty spent entry, a dirty live entry and a clean entry, over a
  database that holds the first transaction's coins.
\<close>

definition ex_spent :: CCoins where
  "ex_spent = \<lparr>fCoinBase = False, vout = [NullTxOut, NullTxOut], CCoins.nHeight = 10,
               CCoins.nVersion = 1\<rparr>"

definition ex_live :: CCoins where
  "ex_live = \<lparr>fCoinBase = False, vout = [NullTxOut, CTxOut 7 []], CCoins.nHeight = 10,
              CCoins.nVersion = 1\<rparr>"

definition ex_mapCoins :: CCoinsMap where
  "ex_mapCoins = [(1, \<lparr>coins = ex_spent, flags = 1\<rparr>), (2, \<lparr>coins = ex_live, flags = 3\<rparr>),
                  (3, \<lparr>coins = ex_live, flags = 0\<rparr>)]"

definition ex_coins_db :: leveldb where
  "ex_coins_db = [([tag (CHR ''B'')], le_bytes 32 (8 :: uint256)),
                  (hash_key ex_E (CHR ''c'') 1, ex_ser_coins ex_live)]"

text \<open>Databases for the stats scan: a best block with one coins record, and with none.\<close>

definition ex_stats :: CCoinsStats where
  "ex_stats = \<lparr>CCoinsStats.nHeight = 0, hashBlock = 0, nTransactions = 0,
               nTransactionOutputs = 0, nSerializedSize = 0, hashSerialized = 0,
               nTotalAmount = 0\<rparr>"

definition ex_stats_db :: leveldb where
  "ex_stats_db = [([tag (CHR ''B'')], le_bytes 32 (8 :: uint256)),
                  (tag (CHR ''c'') # le_bytes 32 (1 :: uint256), [0, 10, 1, 255, 7])]"

definition ex_stats_db0 :: leveldb where
  "ex_stats_db0 = [([tag (CHR ''B'')], le_bytes 32 (8 :: uint256))]"

text \<open>
  Address index records of one address: readable ones, one whose value is cut short and
  one whose key is cut short, each under the prefix the scan seeks.
\<close>

definition ex_prefix :: bytes where
  "ex_prefix = ex_ser_iterator_key (DB_ADDRESSINDEX, 1, 7)"

definition ex_uprefix :: bytes where
  "ex_uprefix = ex_ser_iterator_key (DB_ADDRESSUNSPENTINDEX, 1, 7)"

definition ex_addr_ok :: "bytes \<times> bytes" where
  "ex_addr_ok = (ex_prefix @ le_bytes 4 (100 :: 32 word), ex_ser_amount 5000)"

definition ex_addr_badvalue :: "bytes \<times> bytes" where
  "ex_addr_badvalue = (ex_prefix @ le_bytes 4 (101 :: 32 word), [1, 2, 3])"

definition ex_addr_badkey :: "bytes \<times> bytes" where
  "ex_addr_badkey = (ex_prefix @ [150], ex_ser_amount 1)"

definition ex_addr_later :: "bytes \<times> bytes" where
  "ex_addr_later = (ex_prefix @ le_bytes 4 (200 :: 32 word), ex_ser_amount 6)"

definition ex_unspent_ok :: "bytes \<times> bytes" where
  "ex_unspent_ok = (ex_uprefix @ le_bytes 4 (0 :: 32 word),
                    ex_ser_amount 5000 @ le_bytes 4 (10 :: 32 word))"

definition ex_unspent_badkey :: "bytes \<times> bytes" where
  "ex_unspent_badkey = (ex_uprefix @ [150], ex_ser_amount 1 @ le_bytes 4 (11 :: 32 word))"


section \<open>Versionbits: lemmas\<close>

lemma wf_index_height_nonneg: "wf_index b \<Longrightarrow> 0 \<le> nHeight b"
  by (induction b rule: wf_index.induct) (auto split: option.splits)

lemma wf_index_pprev:
  "wf_index b \<Longrightarrow> pprev b = Some q \<Longrightarrow> wf_index q \<and> nHeight q = nHeight b - 1"
  by (cases b) auto

lemma wf_index_genesis: "wf_index b \<Longrightarrow> pprev b = None \<Longrightarrow> nHeight b = 0"
  by (cases b) auto

lemma smod_nonneg: "0 \<le> (k::int) \<Longrightarrow> 0 < l \<Longrightarrow> k smod l = k mod l"
  by (simp add: signed_modulo_int_def sgn_if)

lemma GetAncestor_step:
  assumes "wf_index b" "pprev b = Some q" "x < nHeight b"
  shows "GetAncestor b x = GetAncestor q x"
proof (cases "x < 0")
  case True
  then show ?thesis by (simp add: GetAncestor_def)
next
  case False
  have hq: "nHeight q = nHeight b - 1" using assms wf_index_pprev by blast
  have "nat (nHeight b - x) = Suc (nat (nHeight q - x))" using False assms(3) hq by simp
  then show ?thesis using False assms hq by (simp add: GetAncestor_def)
qed

lemma mod_pred:
  fixes h n :: int
  assumes "0 < n" "(h + 1) mod n \<noteq> 0"
  shows "h mod n = (h + 1) mod n - 1"
proof -
  have "h mod n = ((h + 1) mod n - 1) mod n" by (simp add: mod_diff_left_eq)
  moreover have "0 \<le> (h + 1) mod n" using assms(1) by simp
  moreover have "(h + 1) mod n < n" using assms(1) by simp
  ultimately show ?thesis using assms(2) by (simp add: mod_pos_pos_trivial)
qed

lemma mod_aligned_pred:
  fixes h n :: int
  assumes "0 < n" "(h + 1) mod n = 0"
  shows "h mod n = n - 1"
proof -
  have "h mod n = ((h + 1) + (n - 1)) mod n" by simp
  also have "\<dots> = ((h + 1) mod n + (n - 1)) mod n" by (simp only: mod_add_left_eq)
  also have "\<dots> = (n - 1) mod n" by (simp only: assms(2) add_0)
  also have "\<dots> = n - 1" by (rule mod_pos_pos_trivial) (use assms(1) in auto)
  finally show ?thesis .
qed

lemma EndOfPrevPeriod_epp:
  assumes "0 < n" "wf_index b"
  shows "EndOfPrevPeriod n b = Inr (epp n (Some b))"
  using assms(2)
proof (induction b rule: wf_index.induct)
  case (1 pp h v t)
  let ?b = "CBlockIndex pp h v t"
  have h0: "0 \<le> h" using "1.prems" wf_index_height_nonneg[of ?b] by simp
  show ?case
  proof (cases "(h + 1) mod n = 0")
    case True
    then show ?thesis using assms(1) h0
      by (simp add: EndOfPrevPeriod_def smod_nonneg GetAncestor_def)
  next
    case False
    have r: "h mod n = (h + 1) mod n - 1" using mod_pred[OF assms(1) False] .
    have rpos: "0 < (h + 1) mod n" using False assms(1)
      by (metis pos_mod_sign order_le_less)
    show ?thesis
    proof (cases pp)
      case None
      then have "h = 0" using "1.prems" by simp
      then show ?thesis using None False assms(1) rpos
        by (simp add: EndOfPrevPeriod_def smod_nonneg GetAncestor_def)
    next
      case (Some q)
      then have wq: "wf_index q" and hq: "nHeight q = h - 1" using "1.prems" by auto
      have IH: "EndOfPrevPeriod n q = Inr (epp n (Some q))" using "1.IH" Some wq by simp
      have q0: "0 \<le> nHeight q" using wq wf_index_height_nonneg by blast
      have "GetAncestor ?b (h - (h + 1) mod n) = GetAncestor q (h - (h + 1) mod n)"
        using GetAncestor_step[of ?b q "h - (h + 1) mod n"] "1.prems" Some rpos by simp
      also have "\<dots> = GetAncestor q (nHeight q - ((nHeight q + 1) mod n))"
        using hq r by simp
      also have "\<dots> = Inr (epp n (Some q))"
        using IH assms(1) q0 by (simp add: EndOfPrevPeriod_def smod_nonneg)
      finally show ?thesis using False assms(1) h0 Some
        by (simp add: EndOfPrevPeriod_def smod_nonneg)
    qed
  qed
qed

lemma period_parent_epp:
  assumes "0 < n" "wf_index b" "(nHeight b + 1) mod n = 0"
  shows "GetAncestor b (nHeight b - n) = Inr (epp n (pprev b))"
proof (cases "pprev b")
  case None
  then have "nHeight b = 0" using assms(2) wf_index_genesis by blast
  then show ?thesis using None assms(1) by (simp add: GetAncestor_def)
next
  case (Some q)
  then have wq: "wf_index q" and hq: "nHeight q = nHeight b - 1"
    using assms(2) wf_index_pprev by blast+
  have q0: "0 \<le> nHeight q" using wq wf_index_height_nonneg by blast
  have m: "(nHeight q + 1) mod n = n - 1"
    using mod_aligned_pred[OF assms(1,3)] hq by simp
  have "GetAncestor b (nHeight b - n) = GetAncestor q (nHeight b - n)"
    using GetAncestor_step[OF assms(2) Some] assms(1) by simp
  also have "\<dots> = GetAncestor q (nHeight q - ((nHeight q + 1) mod n))"
    using hq m by simp
  also have "\<dots> = Inr (epp n (Some q))"
    using EndOfPrevPeriod_epp[OF assms(1) wq] assms(1) q0
    by (simp add: EndOfPrevPeriod_def smod_nonneg)
  finally show ?thesis using Some by simp
qed

lemma ancestry_unfold: "ancestry b = b # anc (pprev b)"
  by (cases b) (simp add: anc_def)

lemma anc_simps [simp]: "anc None = []" "anc (Some b) = b # anc (pprev b)"
  using ancestry_unfold by (simp_all add: anc_def)

lemma length_ancestry: "wf_index b \<Longrightarrow> length (ancestry b) = nat (nHeight b) + 1"
proof (induction b rule: wf_index.induct)
  case (1 pp h v t)
  show ?case
  proof (cases pp)
    case None
    then show ?thesis using "1.prems" by simp
  next
    case (Some q)
    then have "wf_index q" "h = nHeight q + 1" using "1.prems" by auto
    moreover have "0 \<le> nHeight q" using calculation wf_index_height_nonneg by blast
    ultimately show ?thesis using "1.IH" Some by simp
  qed
qed

lemma count_loop_take:
  "nat (n - i) \<le> length (anc p) \<Longrightarrow>
   count_loop (total_condition C) n i p cnt =
     Inr (cnt + int (length (filter C (take (nat (n - i)) (anc p)))))"
proof (induction "nat (n - i)" arbitrary: i p cnt)
  case 0
  then have "\<not> i < n" by simp
  then show ?case using 0 by (subst count_loop.simps) simp
next
  case (Suc k)
  have lt: "i < n" using Suc.hyps(2) by linarith
  have kk: "nat (n - i) = Suc (nat (n - (i + 1)))" using lt by simp
  obtain b where p: "p = Some b" using Suc.prems kk by (cases p) auto
  have k: "k = nat (n - (i + 1))" using Suc.hyps(2) kk by simp
  have le: "nat (n - (i + 1)) \<le> length (anc (pprev b))" using Suc.prems p kk by simp
  have IH: "count_loop (total_condition C) n (i + 1) (pprev b) (if C b then cnt + 1 else cnt) =
       Inr ((if C b then cnt + 1 else cnt)
            + int (length (filter C (take (nat (n - (i + 1))) (anc (pprev b))))))"
    using Suc.hyps(1)[OF k le] .
  have "count_loop (total_condition C) n i p cnt =
          count_loop (total_condition C) n (i + 1) (pprev b) (if C b then cnt + 1 else cnt)"
    using lt p by (subst count_loop.simps) (simp add: total_condition_def)
  also note IH
  finally show ?case using p kk by simp
qed

lemma count_loop_Condition_count:
  assumes "wf_index b" "n \<le> nHeight b + 1"
  shows "count_loop (total_condition C) n 0 (Some b) 0 = Inr (Condition_count C n b)"
proof -
  have "nat (n - 0) \<le> length (anc (Some b))"
    using assms length_ancestry[OF assms(1)] by (simp add: anc_def)
  from count_loop_take[OF this, of C 0] show ?thesis
    by (simp add: Condition_count_def anc_def)
qed

lemma stateNext_table:
  assumes "wf_index b" "nPeriod bip \<le> nHeight b + 1"
  shows "stateNext bip (total_condition C) s b = Inr (Transition_table bip C s b)"
  using count_loop_Condition_count[OF assms, of C]
  by (cases s) (simp_all add: stateNext_def Transition_table_def Let_def)

lemma walk_forward_append:
  "walk_forward bip C c s (xs @ ys) =
     (case walk_forward bip C c s xs of Inl e \<Rightarrow> Inl e | Inr (s', c') \<Rightarrow> walk_forward bip C c' s' ys)"
  by (induction xs arbitrary: c s) (auto split: sum.splits)

lemma period_state_epp: "period_state bip C (epp (nPeriod bip) p) = period_state bip C p"
  by (induction "nPeriod bip" p rule: epp.induct) auto

lemma wf_ptr_pprev: "wf_index b \<Longrightarrow> wf_ptr (pprev b)"
  by (cases b) (auto simp: wf_ptr_def split: option.splits)

lemma epp_aligned: "wf_ptr p \<Longrightarrow> aligned_ptr n (epp n p)"
  by (induction n p rule: epp.induct) (auto simp: wf_ptr_def aligned_ptr_def split: option.splits)

lemma epp_height:
  "wf_ptr p \<Longrightarrow> epp n p = Some a \<Longrightarrow> \<exists>b. p = Some b \<and> nHeight a \<le> nHeight b"
proof (induction n p rule: epp.induct)
  case (1 n)
  then show ?case by simp
next
  case (2 n pp h v t)
  show ?case
  proof (cases "(h + 1) mod n = 0")
    case True
    then show ?thesis using "2.prems" by auto
  next
    case False
    then have e: "epp n pp = Some a" using "2.prems" by simp
    have w: "wf_ptr pp" using "2.prems"(1) by (auto simp: wf_ptr_def split: option.splits)
    from "2.IH"[OF False w e] obtain q where q: "pp = Some q" "nHeight a \<le> nHeight q" by blast
    then show ?thesis using "2.prems"(1) by (auto simp: wf_ptr_def)
  qed
qed

lemma epp_smaller:
  assumes "wf_index b"
  shows "(case epp n (pprev b) of None \<Rightarrow> 0 | Some a \<Rightarrow> nat (nHeight a) + 1) < nat (nHeight b) + 1"
proof (cases "epp n (pprev b)")
  case None
  then show ?thesis by simp
next
  case (Some a)
  from epp_height[OF wf_ptr_pprev[OF assms] Some] obtain q where
    q: "pprev b = Some q" "nHeight a \<le> nHeight q" by blast
  have "nHeight q = nHeight b - 1" "wf_index q" using wf_index_pprev[OF assms q(1)] by auto
  moreover have "0 \<le> nHeight q" using calculation wf_index_height_nonneg by blast
  ultimately show ?thesis using Some q by simp
qed

lemma cache_ok_upd:
  assumes "cache_ok bip C c" "s = period_state bip C k"
    "case k of None \<Rightarrow> True | Some b \<Rightarrow> (nHeight b + 1) mod nPeriod bip = 0"
  shows "cache_ok bip C (c(k \<mapsto> s))"
  using assms unfolding cache_ok_def by auto

lemma map_le_upd_fresh:
  assumes "c k = None"
  shows "c \<subseteq>\<^sub>m c(k \<mapsto> v)"
proof (unfold map_le_def, intro ballI)
  fix a assume "a \<in> dom c"
  then have "a \<noteq> k" using assms by auto
  then show "c a = (c(k \<mapsto> v)) a" by simp
qed

lemma walk_back_forward:
  assumes n: "0 < nPeriod bip"
  shows "cache_ok bip C cache \<Longrightarrow> aligned_ptr (nPeriod bip) p \<Longrightarrow>
    \<exists>c1 p1 new s c2. walk_back bip cache p vs = Some (Inr (c1, p1, new @ vs)) \<and> c1 p1 = Some s \<and>
       walk_forward bip (total_condition C) c1 s new = Inr (period_state bip C p, c2) \<and>
       cache_ok bip C c2 \<and> cache \<subseteq>\<^sub>m c2 \<and> c2 p = Some (period_state bip C p)"
proof (induction p arbitrary: vs
    rule: measure_induct_rule[where f = "\<lambda>p. case p of None \<Rightarrow> 0 | Some b \<Rightarrow> nat (nHeight b) + 1"])
  case (less p)
  note ok = less.prems(1) and al = less.prems(2)
  show ?case
  proof (cases "cache p")
    case (Some s)
    then have s: "s = period_state bip C p" using ok unfolding cache_ok_def by blast
    have "walk_back bip cache p vs = Some (Inr (cache, p, [] @ vs))"
      using Some by (subst walk_back.simps) simp
    moreover have "walk_forward bip (total_condition C) cache s [] = Inr (period_state bip C p, cache)"
      using s by simp
    ultimately show ?thesis using Some ok s by (metis map_le_refl)
  next
    case None
    note uncached = None
    show ?thesis
    proof (cases p)
      case None
      let ?c = "cache(None \<mapsto> DEFINED)"
      have "walk_back bip cache p vs = Some (Inr (?c, p, [] @ vs))"
        using None uncached by (subst walk_back.simps) simp
      moreover have "walk_forward bip (total_condition C) ?c DEFINED [] = Inr (period_state bip C p, ?c)"
        using None by simp
      moreover have "cache_ok bip C ?c" using ok by (intro cache_ok_upd) auto
      moreover have "cache \<subseteq>\<^sub>m ?c" using uncached None by (intro map_le_upd_fresh) simp
      moreover have "?c p = Some DEFINED" "?c p = Some (period_state bip C p)" using None by auto
      ultimately show ?thesis by blast
    next
      case (Some b)
      then have wb: "wf_index b" and ab: "(nHeight b + 1) mod nPeriod bip = 0"
        using al by (auto simp: aligned_ptr_def)
      obtain pp h v t where b: "b = CBlockIndex pp h v t" by (cases b)
      show ?thesis
      proof (cases "GetMedianTimePast b < nStartTime bip")
        case True
        let ?c = "cache(Some b \<mapsto> DEFINED)"
        have ps: "period_state bip C p = DEFINED" using Some True ab b by simp
        have "walk_back bip cache p vs = Some (Inr (?c, p, [] @ vs))"
          using Some uncached True by (subst walk_back.simps) simp
        moreover have "walk_forward bip (total_condition C) ?c DEFINED [] = Inr (period_state bip C p, ?c)"
          using ps by simp
        moreover have "cache_ok bip C ?c" using ok ps Some ab by (intro cache_ok_upd) auto
        moreover have "cache \<subseteq>\<^sub>m ?c" using uncached Some by (intro map_le_upd_fresh) simp
        moreover have "?c p = Some DEFINED" "?c p = Some (period_state bip C p)"
          using Some ps by auto
        ultimately show ?thesis by blast
      next
        case False
        let ?q = "epp (nPeriod bip) (pprev b)"
        have ga: "GetAncestor b (nHeight b - nPeriod bip) = Inr ?q"
          using period_parent_epp[OF n wb ab] .
        have alq: "aligned_ptr (nPeriod bip) ?q" using epp_aligned wf_ptr_pprev[OF wb] by blast
        have smaller: "(case ?q of None \<Rightarrow> 0 | Some b \<Rightarrow> nat (nHeight b) + 1)
                        < (case p of None \<Rightarrow> 0 | Some b \<Rightarrow> nat (nHeight b) + 1)"
          using epp_smaller[OF wb] Some by simp
        from less.IH[OF smaller ok alq, of "b # vs"] obtain c1 p1 new s c2 where
          wb1: "walk_back bip cache ?q (b # vs) = Some (Inr (c1, p1, new @ (b # vs)))" and
          c1: "c1 p1 = Some s" and
          wf1: "walk_forward bip (total_condition C) c1 s new = Inr (period_state bip C ?q, c2)" and
          ok2: "cache_ok bip C c2" and le2: "cache \<subseteq>\<^sub>m c2" by blast
        have psq: "period_state bip C ?q = period_state bip C pp"
          using period_state_epp[of bip C "pprev b"] b by simp
        have hb: "nPeriod bip \<le> nHeight b + 1"
        proof -
          have "0 \<le> nHeight b" using wb wf_index_height_nonneg by blast
          then have "0 < nHeight b + 1" by simp
          then show ?thesis using ab n
            by (metis zdvd_imp_le dvd_eq_mod_eq_0)
        qed
        let ?s = "Transition_table bip C (period_state bip C pp) b"
        let ?c = "c2(Some b \<mapsto> ?s)"
        have ps: "period_state bip C p = ?s" using Some False ab b by simp
        have "walk_back bip cache p vs = Some (Inr (c1, p1, (new @ [b]) @ vs))"
          using Some uncached False ga wb1 by (subst walk_back.simps) simp
        moreover have "walk_forward bip (total_condition C) c1 s (new @ [b]) = Inr (period_state bip C p, ?c)"
          using wf1 psq ps stateNext_table[OF wb hb, of C] by (simp add: walk_forward_append)
        moreover have "cache_ok bip C ?c" using ok2 ps Some ab by (intro cache_ok_upd) auto
        moreover have "cache \<subseteq>\<^sub>m ?c"
        proof -
          have "\<forall>a\<in>dom cache. cache a = ?c a"
          proof
            fix a assume a: "a \<in> dom cache"
            then have "a \<noteq> Some b" using uncached Some by auto
            moreover have "cache a = c2 a" using le2 a by (simp add: map_le_def)
            ultimately show "cache a = ?c a" by simp
          qed
          then show ?thesis by (simp add: map_le_def)
        qed
        moreover have "?c p = Some (period_state bip C p)" using Some ps by simp
        ultimately show ?thesis using c1 by blast
      qed
    qed
  qed
qed

lemma UpdateCacheState_period_state:
  assumes "nStartTime bip \<noteq> ALWAYS_ACTIVE K" "0 < nPeriod bip" "cache_ok bip C cache" "wf_ptr p"
  shows "\<exists>c2. UpdateCacheState K bip (total_condition C) p cache = Some (Inr (period_state bip C p, c2)) \<and>
           cache_ok bip C c2 \<and> cache \<subseteq>\<^sub>m c2 \<and>
           c2 (epp (nPeriod bip) p) = Some (period_state bip C p)"
proof -
  let ?a = "epp (nPeriod bip) p"
  have al: "(case p of None \<Rightarrow> Inr None | Some b \<Rightarrow> EndOfPrevPeriod (nPeriod bip) b) = Inr ?a"
    using assms(2,4) EndOfPrevPeriod_epp by (cases p) (auto simp: wf_ptr_def)
  have alq: "aligned_ptr (nPeriod bip) ?a" using epp_aligned assms(4) by blast
  from walk_back_forward[OF assms(2,3) alq, where vs = "[]"] obtain c1 p1 new s c2 where
    "walk_back bip cache ?a [] = Some (Inr (c1, p1, new))" "c1 p1 = Some s"
    "walk_forward bip (total_condition C) c1 s new = Inr (period_state bip C ?a, c2)"
    "cache_ok bip C c2" "cache \<subseteq>\<^sub>m c2" "c2 ?a = Some (period_state bip C ?a)"
    by auto
  then show ?thesis using assms(1) al
    by (simp add: UpdateCacheState_def period_state_epp)
qed

lemma since_loop_ok:
  assumes a: "nStartTime bip \<noteq> ALWAYS_ACTIVE K" and n: "0 < nPeriod bip"
  shows "cache_ok bip C c \<Longrightarrow> aligned_ptr (nPeriod bip) pp \<Longrightarrow>
    \<exists>p' c'. since_loop K bip (total_condition C) s0 p pp c = Some (Inr (p', c')) \<and> cache_ok bip C c' \<and> c \<subseteq>\<^sub>m c'"
proof (induction pp arbitrary: p c
    rule: measure_induct_rule[where f = "\<lambda>p. case p of None \<Rightarrow> 0 | Some b \<Rightarrow> nat (nHeight b) + 1"])
  case (less pp)
  note ok = less.prems(1) and al = less.prems(2)
  show ?case
  proof (cases pp)
    case None
    then have "since_loop K bip (total_condition C) s0 p pp c = Some (Inr (p, c))"
      by (subst since_loop.simps) simp
    then show ?thesis using ok by (metis map_le_refl)
  next
    case (Some q)
    then have wq: "wf_index q" and aq: "(nHeight q + 1) mod nPeriod bip = 0"
      using al by (auto simp: aligned_ptr_def)
    have "wf_ptr (Some q)" using wq by (simp add: wf_ptr_def)
    from UpdateCacheState_period_state[OF a n ok this] obtain c1 where
      u: "UpdateCacheState K bip (total_condition C) (Some q) c = Some (Inr (period_state bip C (Some q), c1))" and
      ok1: "cache_ok bip C c1" and le1: "c \<subseteq>\<^sub>m c1" by blast
    show ?thesis
    proof (cases "period_state bip C (Some q) = s0")
      case False
      then have "since_loop K bip (total_condition C) s0 p pp c = Some (Inr (p, c1))"
        using Some u by (subst since_loop.simps) simp
      then show ?thesis using ok1 le1 by blast
    next
      case True
      let ?r = "epp (nPeriod bip) (pprev q)"
      have ga: "GetAncestor q (nHeight q - nPeriod bip) = Inr ?r"
        using period_parent_epp[OF n wq aq] .
      have alr: "aligned_ptr (nPeriod bip) ?r" using epp_aligned wf_ptr_pprev[OF wq] by blast
      have smaller: "(case ?r of None \<Rightarrow> 0 | Some b \<Rightarrow> nat (nHeight b) + 1)
                      < (case pp of None \<Rightarrow> 0 | Some b \<Rightarrow> nat (nHeight b) + 1)"
        using epp_smaller[OF wq] Some by simp
      from less.IH[OF smaller ok1 alr, of q] obtain p' c' where
        r: "since_loop K bip (total_condition C) s0 q ?r c1 = Some (Inr (p', c'))" "cache_ok bip C c'" "c1 \<subseteq>\<^sub>m c'"
        by blast
      have "since_loop K bip (total_condition C) s0 p pp c = Some (Inr (p', c'))"
        using Some u True ga r(1) by (subst since_loop.simps) simp
      then show ?thesis using r(2,3) le1 map_le_trans by blast
    qed
  qed
qed

lemma period_state_not_DEFINED_epp:
  "period_state bip C p \<noteq> DEFINED \<Longrightarrow> \<exists>a. epp (nPeriod bip) p = Some a"
  using period_state_epp[of bip C p] by (cases "epp (nPeriod bip) p") auto

lemma StartingHeight_ok:
  assumes a: "nStartTime bip \<noteq> ALWAYS_ACTIVE K" and n: "0 < nPeriod bip"
    and ok: "cache_ok bip C c" and w: "wf_ptr p"
  shows "\<exists>h c'. StartingHeightOfBlockIndexState K bip (total_condition C) p c = Some (Inr (h, c')) \<and>
           cache_ok bip C c' \<and> c \<subseteq>\<^sub>m c'"
proof -
  from UpdateCacheState_period_state[OF a n ok w] obtain c1 where
    u: "UpdateCacheState K bip (total_condition C) p c = Some (Inr (period_state bip C p, c1))" and
    ok1: "cache_ok bip C c1" and le1: "c \<subseteq>\<^sub>m c1" by blast
  show ?thesis
  proof (cases "period_state bip C p = DEFINED")
    case True
    then show ?thesis using a u ok1 le1 by (auto simp: StartingHeightOfBlockIndexState_def)
  next
    case False
    from period_state_not_DEFINED_epp[OF False] obtain x where x: "epp (nPeriod bip) p = Some x"
      by blast
    then obtain b where b: "p = Some b" by (cases p) auto
    then have wb: "wf_index b" using w by (simp add: wf_ptr_def)
    have e: "EndOfPrevPeriod (nPeriod bip) b = Inr (Some x)"
      using EndOfPrevPeriod_epp[OF n wb] x b by simp
    have "aligned_ptr (nPeriod bip) (Some x)" using epp_aligned[OF w, of "nPeriod bip"] x by simp
    then have wx: "wf_index x" and ax: "(nHeight x + 1) mod nPeriod bip = 0"
      by (auto simp: aligned_ptr_def)
    let ?r = "epp (nPeriod bip) (pprev x)"
    have ga: "GetAncestor x (nHeight x - nPeriod bip) = Inr ?r"
      using period_parent_epp[OF n wx ax] .
    have alr: "aligned_ptr (nPeriod bip) ?r" using epp_aligned wf_ptr_pprev[OF wx] by blast
    from since_loop_ok[OF a n ok1 alr, where ?s0.0 = "period_state bip C p" and p = x] obtain p' c' where
      r: "since_loop K bip (total_condition C) (period_state bip C p) x ?r c1 = Some (Inr (p', c'))"
        "cache_ok bip C c'" "c1 \<subseteq>\<^sub>m c'" by blast
    have "StartingHeightOfBlockIndexState K bip (total_condition C) p c = Some (Inr (nHeight p' + 1, c'))"
      using a u False b e ga r(1) by (simp add: StartingHeightOfBlockIndexState_def)
    then show ?thesis using r(2,3) le1 map_le_trans by blast
  qed
qed

lemma cache_ok_empty: "cache_ok bip C Map.empty"
  by (simp add: cache_ok_def)

lemma run_ops_ok:
  assumes n: "0 < nPeriod bip"
  shows "cache_ok bip C c \<Longrightarrow> list_all (\<lambda>x. wf_ptr (op_ptr x)) ops \<Longrightarrow>
     \<exists>c'. run_ops K bip (total_condition C) ops c = Some (Inr c') \<and> cache_ok bip C c' \<and> c \<subseteq>\<^sub>m c'"
proof (induction ops arbitrary: c)
  case Nil
  then show ?case by simp
next
  case (Cons x ops)
  show ?case
  proof (cases "nStartTime bip = ALWAYS_ACTIVE K")
    case True
    have "run_ops K bip (total_condition C) (x # ops) c = run_ops K bip (total_condition C) ops c"
      using True
      by (cases x) (simp_all add: UpdateCacheState_def StartingHeightOfBlockIndexState_def)
    then show ?thesis using Cons by simp
  next
    case False
    show ?thesis
    proof (cases x)
      case (StateOf p)
      then have "wf_ptr p" using Cons.prems(2) by simp
      from UpdateCacheState_period_state[OF False n Cons.prems(1) this] obtain c1 where
        u: "UpdateCacheState K bip (total_condition C) p c = Some (Inr (period_state bip C p, c1))" and
        ok1: "cache_ok bip C c1" and le1: "c \<subseteq>\<^sub>m c1" by blast
      from Cons.IH[OF ok1] Cons.prems(2) obtain c' where
        "run_ops K bip (total_condition C) ops c1 = Some (Inr c')" "cache_ok bip C c'" "c1 \<subseteq>\<^sub>m c'" by auto
      then show ?thesis using StateOf u le1 map_le_trans by (simp, blast)
    next
      case (SinceHeightOf p)
      then have "wf_ptr p" using Cons.prems(2) by simp
      from StartingHeight_ok[OF False n Cons.prems(1) this] obtain h c1 where
        u: "StartingHeightOfBlockIndexState K bip (total_condition C) p c = Some (Inr (h, c1))" and
        ok1: "cache_ok bip C c1" and le1: "c \<subseteq>\<^sub>m c1" by blast
      from Cons.IH[OF ok1] Cons.prems(2) obtain c' where
        "run_ops K bip (total_condition C) ops c1 = Some (Inr c')" "cache_ok bip C c'" "c1 \<subseteq>\<^sub>m c'" by auto
      then show ?thesis using SinceHeightOf u le1 map_le_trans by (simp, blast)
    qed
  qed
qed

lemma VersionBitsCondition_spec:
  "bit bip < 32 \<Longrightarrow> VersionBitsCondition K bip = total_condition (Condition_spec K bip)"
  by (rule ext) (simp add: VersionBitsCondition_def Condition_spec_def Mask_def total_condition_def)

lemma mtp_monotone_anc:
  "mtp_monotone b \<Longrightarrow> x \<in> set (ancestry b) \<Longrightarrow> GetMedianTimePast x \<le> GetMedianTimePast b"
proof (induction b rule: mtp_monotone.induct)
  case (1 pp h v t)
  let ?b = "CBlockIndex pp h v t"
  show ?case
  proof (cases "x = ?b")
    case True
    then show ?thesis by simp
  next
    case False
    then obtain q where q: "pp = Some q" "x \<in> set (ancestry q)"
      using "1.prems"(2) by (cases pp) auto
    then have m: "mtp_monotone q" "GetMedianTimePast q \<le> t" using "1.prems"(1) by simp_all
    from "1.IH"[OF q(1) m(1) q(2)] m(2) show ?thesis by simp
  qed
qed

lemma mtp_monotone_pprev: "mtp_monotone b \<Longrightarrow> mtp_monotone_ptr (pprev b)"
  by (cases b) (auto simp: mtp_monotone_ptr_def split: option.splits)

lemma table_state_before_start:
  "nStartTime bip \<le> nTimeout bip \<Longrightarrow>
   \<forall>x \<in> set (anc p). GetMedianTimePast x < nStartTime bip \<Longrightarrow> table_state bip C p = DEFINED"
proof (induction bip C p rule: table_state.induct)
  case (1 bip C)
  then show ?case by simp
next
  case (2 bip C pp h v t)
  have anc_pp: "\<forall>x \<in> set (anc pp). GetMedianTimePast x < nStartTime bip"
    using "2.prems"(2) by simp
  have pp: "table_state bip C pp = DEFINED"
  proof (cases "(h + 1) mod nPeriod bip = 0")
    case True
    then show ?thesis using "2.IH"(1)[OF True "2.prems"(1) anc_pp] by simp
  next
    case False
    then show ?thesis using "2.IH"(2)[OF False "2.prems"(1) anc_pp] by simp
  qed
  have "t < nStartTime bip" using "2.prems"(2) by simp
  then show ?case using pp "2.prems"(1) by (simp add: Transition_table_def)
qed

lemma period_state_eq_table_state:
  "nStartTime bip \<le> nTimeout bip \<Longrightarrow> mtp_monotone_ptr p \<Longrightarrow>
     period_state bip C p = table_state bip C p"
proof (induction bip C p rule: period_state.induct)
  case (1 bip C)
  then show ?case by simp
next
  case (2 bip C pp h v t)
  let ?b = "CBlockIndex pp h v t"
  have mb: "mtp_monotone ?b" using "2.prems"(2) by (simp add: mtp_monotone_ptr_def)
  have mpp: "mtp_monotone_ptr pp" using mtp_monotone_pprev[OF mb] by simp
  show ?case
  proof (cases "(h + 1) mod nPeriod bip = 0")
    case False
    then show ?thesis using "2.IH"(2)[OF False "2.prems"(1) mpp] by simp
  next
    case True
    show ?thesis
    proof (cases "t < nStartTime bip")
      case False
      then show ?thesis using "2.IH"(1)[OF True False "2.prems"(1) mpp] True by simp
    next
      case lt: True
      have "\<forall>x \<in> set (ancestry ?b). GetMedianTimePast x \<le> t"
        using mtp_monotone_anc[OF mb] by auto
      then have "\<forall>x \<in> set (anc (Some ?b)). GetMedianTimePast x < nStartTime bip"
        using lt unfolding anc_def by fastforce
      from table_state_before_start[OF "2.prems"(1) this, of C]
      show ?thesis using True lt by simp
    qed
  qed
qed

lemma UpdateCacheState_always_active:
  "nStartTime bip = ALWAYS_ACTIVE K \<Longrightarrow> UpdateCacheState K bip C p c = Some (Inr (ACTIVE, c))"
  by (simp add: UpdateCacheState_def)

lemma period_state_started:
  "mtp_monotone_ptr p \<Longrightarrow> period_state bip C p \<noteq> DEFINED \<Longrightarrow>
     \<exists>x. p = Some x \<and> nStartTime bip \<le> GetMedianTimePast x"
proof (induction bip C p rule: period_state.induct)
  case (1 bip C)
  then show ?case by simp
next
  case (2 bip C pp h v t)
  let ?b = "CBlockIndex pp h v t"
  have mb: "mtp_monotone ?b" using "2.prems" by (simp add: mtp_monotone_ptr_def)
  have mpp: "mtp_monotone_ptr pp" using mtp_monotone_pprev[OF mb] by simp
  show ?case
  proof (cases "(h + 1) mod nPeriod bip = 0")
    case True
    then show ?thesis using "2.prems"(2) by (cases "t < nStartTime bip") auto
  next
    case False
    then have "period_state bip C pp \<noteq> DEFINED" using "2.prems"(2) by simp
    from "2.IH"(2)[OF False mpp this] obtain x where
      x: "pp = Some x" "nStartTime bip \<le> GetMedianTimePast x" by blast
    then have "GetMedianTimePast x \<le> t" using mb by simp
    then show ?thesis using x by simp
  qed
qed

lemma progress_refl: "progress s s"
  by (simp add: progress_def)

lemma progress_trans: "progress s s' \<Longrightarrow> progress s' s'' \<Longrightarrow> progress s s''"
  by (auto simp: progress_def)

lemma progress_table: "progress s (Transition_table bip C s b)"
  by (cases s) (auto simp: progress_def Transition_table_def)

lemma period_state_step:
  assumes "mtp_monotone b"
  shows "progress (period_state bip C (pprev b)) (period_state bip C (Some b))"
proof (cases b)
  case (CBlockIndex pp h v t)
  show ?thesis
  proof (cases "(h + 1) mod nPeriod bip = 0 \<and> t < nStartTime bip")
    case False
    then show ?thesis using CBlockIndex progress_refl progress_table by auto
  next
    case True
    have "period_state bip C pp = DEFINED"
    proof (rule ccontr)
      assume "period_state bip C pp \<noteq> DEFINED"
      from period_state_started[OF _ this] mtp_monotone_pprev[OF assms] CBlockIndex
      obtain x where x: "pp = Some x" "nStartTime bip \<le> GetMedianTimePast x" by auto
      then have "GetMedianTimePast x \<le> t" using assms CBlockIndex by simp
      then show False using x True by simp
    qed
    then show ?thesis using CBlockIndex True by (simp add: progress_def)
  qed
qed

lemma period_state_progress:
  "mtp_monotone b \<Longrightarrow> a \<in> set (ancestry b) \<Longrightarrow>
     progress (period_state bip C (Some a)) (period_state bip C (Some b))"
proof (induction b rule: mtp_monotone.induct)
  case (1 pp h v t)
  let ?b = "CBlockIndex pp h v t"
  show ?case
  proof (cases "a = ?b")
    case True
    then show ?thesis by (simp only: progress_refl)
  next
    case False
    then obtain q where q: "pp = Some q" "a \<in> set (ancestry q)"
      using "1.prems"(2) by (cases pp) auto
    then have "mtp_monotone q" using "1.prems"(1) by simp
    from "1.IH"[OF q(1) this q(2)]
    have 1: "progress (period_state bip C (Some a)) (period_state bip C (Some q))" .
    have "pprev ?b = Some q" using q(1) by simp
    with period_state_step[OF "1.prems"(1), of bip C]
    have 2: "progress (period_state bip C (Some q)) (period_state bip C (Some ?b))"
      by (simp only:)
    from progress_trans[OF 1 2] show ?thesis .
  qed
qed

lemma wf_index_anc: "wf_index b \<Longrightarrow> a \<in> set (ancestry b) \<Longrightarrow> wf_index a"
proof (induction b rule: wf_index.induct)
  case (1 pp h v t)
  let ?b = "CBlockIndex pp h v t"
  show ?case
  proof (cases "a = ?b")
    case True
    then show ?thesis using "1.prems"(1) by (simp only:)
  next
    case False
    then obtain q where q: "pp = Some q" "a \<in> set (ancestry q)"
      using "1.prems"(2) by (cases pp) auto
    then have "wf_index q" using "1.prems"(1) by simp
    from "1.IH"[OF q(1) this q(2)] show ?thesis .
  qed
qed

lemma aligned_period_le:
  assumes "0 < n" "wf_index b" "(nHeight b + 1) mod n = 0"
  shows "n \<le> nHeight b + 1"
proof -
  have "0 \<le> nHeight b" using assms(2) wf_index_height_nonneg by blast
  then have "0 < nHeight b + 1" by simp
  then show ?thesis using assms(1,3) by (metis zdvd_imp_le dvd_eq_mod_eq_0)
qed





section \<open>Versionbits: the claims\<close>




text \<open>
  Claim C2 (memoized equals recomputed), as the source has it. For a deployment with a
  positive period, a well-formed pointer \<open>indexPrev\<close> (null included), a condition that is
  defined on every entry, and any sequence of earlier operations on well-formed pointers run
  from the empty cache: the earlier operations return, and \<^verbatim>\<open>UpdateCacheState\<close> on the cache
  they leave returns the state it returns on an empty cache. That state is the one
  recomputed without a cache from the genesis parent by the transition table, provided the
  median time past of the chain never decreases and \<open>nStartTime \<le> nTimeout\<close>.
\<close>

theorem memoized_state_eq_recomputed:
  assumes "0 < nPeriod bip" "wf_ptr p" "list_all (\<lambda>x. wf_ptr (op_ptr x)) earlier"
  shows "\<exists>c s c' c0. run_ops K bip (total_condition C) earlier Map.empty = Some (Inr c) \<and>
           UpdateCacheState K bip (total_condition C) p c = Some (Inr (s, c')) \<and>
           UpdateCacheState K bip (total_condition C) p Map.empty = Some (Inr (s, c0)) \<and>
           (mtp_monotone_ptr p \<and> nStartTime bip \<le> nTimeout bip
              \<longrightarrow> s = recomputed_state K bip C p)"
proof -
  from run_ops_ok[OF assms(1) cache_ok_empty assms(3), where K = K and C = C] obtain c where
    c: "run_ops K bip (total_condition C) earlier Map.empty = Some (Inr c)" "cache_ok bip C c" by blast
  show ?thesis
  proof (cases "nStartTime bip = ALWAYS_ACTIVE K")
    case True
    then show ?thesis using c(1) UpdateCacheState_always_active[OF True]
      by (simp add: recomputed_state_def)
  next
    case False
    from UpdateCacheState_period_state[OF False assms(1) c(2) assms(2)] obtain c' where
      1: "UpdateCacheState K bip (total_condition C) p c = Some (Inr (period_state bip C p, c'))"
      by blast
    from UpdateCacheState_period_state[OF False assms(1) cache_ok_empty assms(2)] obtain c0 where
      2: "UpdateCacheState K bip (total_condition C) p Map.empty = Some (Inr (period_state bip C p, c0))"
      by blast
    have 3: "mtp_monotone_ptr p \<and> nStartTime bip \<le> nTimeout bip
               \<longrightarrow> period_state bip C p = recomputed_state K bip C p"
      using False period_state_eq_table_state[of bip p C] by (simp add: recomputed_state_def)
    from c(1) 1 2 3 show ?thesis by blast
  qed
qed

theorem memoized_state_eq_recomputed_witness:
  "0 < nPeriod ex_bip \<and> wf_ptr (Some g5) \<and>
   list_all (\<lambda>x. wf_ptr (op_ptr x)) [StateOf (Some g3), SinceHeightOf (Some g5), StateOf None] \<and>
   mtp_monotone_ptr (Some g5) \<and> nStartTime ex_bip \<le> nTimeout ex_bip \<and>
   recomputed_state ex_K ex_bip (Condition_spec ex_K ex_bip) (Some g5) = ACTIVE \<and>
   (\<exists>c c' c0. run_ops ex_K ex_bip (VersionBitsCondition ex_K ex_bip)
              [StateOf (Some g3), SinceHeightOf (Some g5), StateOf None] Map.empty = Some (Inr c) \<and>
      UpdateCacheState ex_K ex_bip (VersionBitsCondition ex_K ex_bip) (Some g5) c =
        Some (Inr (ACTIVE, c')) \<and>
      UpdateCacheState ex_K ex_bip (VersionBitsCondition ex_K ex_bip) (Some g5) Map.empty =
        Some (Inr (ACTIVE, c0)))"
proof -
  have vb: "VersionBitsCondition ex_K ex_bip = total_condition (Condition_spec ex_K ex_bip)"
    by (rule VersionBitsCondition_spec) (simp add: ex_defs)
  have h: "0 < nPeriod ex_bip" "wf_ptr (Some g5)"
    "list_all (\<lambda>x. wf_ptr (op_ptr x)) [StateOf (Some g3), SinceHeightOf (Some g5), StateOf None]"
    by (simp_all add: wf_ptr_def ex_defs)
  have m: "mtp_monotone_ptr (Some g5)" "nStartTime ex_bip \<le> nTimeout ex_bip"
    by (simp_all add: mtp_monotone_ptr_def ex_defs)
  have r: "recomputed_state ex_K ex_bip (Condition_spec ex_K ex_bip) (Some g5) = ACTIVE"
    by (simp add: recomputed_state_def Transition_table_def Condition_count_def
        Condition_spec_def ex_defs)
  from memoized_state_eq_recomputed[OF h, of ex_K "Condition_spec ex_K ex_bip", folded vb]
  obtain c s c' c0 where
    1: "run_ops ex_K ex_bip (VersionBitsCondition ex_K ex_bip)
        [StateOf (Some g3), SinceHeightOf (Some g5), StateOf None] Map.empty = Some (Inr c)" and
    2: "UpdateCacheState ex_K ex_bip (VersionBitsCondition ex_K ex_bip) (Some g5) c =
        Some (Inr (s, c'))" and
    3: "UpdateCacheState ex_K ex_bip (VersionBitsCondition ex_K ex_bip) (Some g5) Map.empty =
        Some (Inr (s, c0))" and
    4: "mtp_monotone_ptr (Some g5) \<and> nStartTime ex_bip \<le> nTimeout ex_bip
       \<longrightarrow> s = recomputed_state ex_K ex_bip (Condition_spec ex_K ex_bip) (Some g5)"
    by blast
  from 4 m r have s: "s = ACTIVE" by simp
  have "\<exists>c c' c0. run_ops ex_K ex_bip (VersionBitsCondition ex_K ex_bip)
              [StateOf (Some g3), SinceHeightOf (Some g5), StateOf None] Map.empty = Some (Inr c) \<and>
      UpdateCacheState ex_K ex_bip (VersionBitsCondition ex_K ex_bip) (Some g5) c =
        Some (Inr (ACTIVE, c')) \<and>
      UpdateCacheState ex_K ex_bip (VersionBitsCondition ex_K ex_bip) (Some g5) Map.empty =
        Some (Inr (ACTIVE, c0))"
    using 1 2[unfolded s] 3[unfolded s] by (intro exI conjI)
  with h m r show ?thesis by (intro conjI)
qed

text \<open>
  The claim as it is written fails for a deployment whose timeout precedes its start: on
  the chain \<open>l\<close>, whose median time past never decreases, the call returns \<open>DEFINED\<close> and the
  table from the genesis parent gives \<open>FAILED\<close>.
\<close>

theorem memoized_state_counterexample:
  "wf_index l1 \<and> mtp_monotone l1 \<and>
   UpdateCacheState ex_K ex_bip_late (VersionBitsCondition ex_K ex_bip_late) (Some l1) Map.empty =
     Some (Inr (DEFINED, [Some l1 \<mapsto> DEFINED])) \<and>
   recomputed_state ex_K ex_bip_late (Condition_spec ex_K ex_bip_late) (Some l1) = FAILED"
  by (simp add: eval_defs recomputed_state_def Transition_table_def Condition_count_def ex_defs)

text \<open>
  Claim C6 (monotonicity). Along a chain the median time past never decreases, which is
  what line 34 presupposes. On such a well-formed chain, for every deployment with a positive
  period and a condition that is defined on every entry: let \<open>a\<close> be the entry \<open>b\<close> or one of
  its ancestors, and let \<^verbatim>\<open>UpdateCacheState\<close> be called on \<open>a\<close> and then on \<open>b\<close>, on a cache
  that any earlier operations have filled. Both calls return; if the state of \<open>a\<close> is not
  \<open>DEFINED\<close>, neither is the state of \<open>b\<close>; if it is \<open>ACTIVE\<close>, so is the state of \<open>b\<close>; if it
  is \<open>FAILED\<close>, so is the state of \<open>b\<close>.
\<close>

theorem threshold_state_progress:
  assumes "0 < nPeriod bip" "wf_index b" "mtp_monotone b" "a \<in> set (ancestry b)"
    and "list_all (\<lambda>x. wf_ptr (op_ptr x)) earlier"
  shows "\<exists>c sa c' sb c''. run_ops K bip (total_condition C) earlier Map.empty = Some (Inr c) \<and>
           UpdateCacheState K bip (total_condition C) (Some a) c = Some (Inr (sa, c')) \<and>
           UpdateCacheState K bip (total_condition C) (Some b) c' = Some (Inr (sb, c'')) \<and>
           (sa \<noteq> DEFINED \<longrightarrow> sb \<noteq> DEFINED) \<and> (sa = ACTIVE \<longrightarrow> sb = ACTIVE) \<and>
           (sa = FAILED \<longrightarrow> sb = FAILED)"
proof -
  from run_ops_ok[OF assms(1) cache_ok_empty assms(5), where K = K and C = C] obtain c where
    c: "run_ops K bip (total_condition C) earlier Map.empty = Some (Inr c)" "cache_ok bip C c" by blast
  show ?thesis
  proof (cases "nStartTime bip = ALWAYS_ACTIVE K")
    case True
    then show ?thesis using c(1) UpdateCacheState_always_active[OF True] by simp
  next
    case False
    have wa: "wf_ptr (Some a)" and wb: "wf_ptr (Some b)"
      using assms(2,4) wf_index_anc by (auto simp: wf_ptr_def)
    from UpdateCacheState_period_state[OF False assms(1) c(2) wa] obtain c' where
      ua: "UpdateCacheState K bip (total_condition C) (Some a) c =
             Some (Inr (period_state bip C (Some a), c'))"
      and ok': "cache_ok bip C c'" by blast
    from UpdateCacheState_period_state[OF False assms(1) ok' wb] obtain c'' where
      ub: "UpdateCacheState K bip (total_condition C) (Some b) c' =
             Some (Inr (period_state bip C (Some b), c''))"
      by blast
    from period_state_progress[OF assms(3,4), of bip C]
    show ?thesis using c(1) ua ub unfolding progress_def by blast
  qed
qed

theorem threshold_state_progress_witness:
  "0 < nPeriod ex_bip \<and> wf_index g5 \<and> mtp_monotone g5 \<and> g1 \<in> set (ancestry g5) \<and>
   list_all (\<lambda>x. wf_ptr (op_ptr x)) [StateOf (Some g2)] \<and>
   (\<exists>c sa c' sb c''.
      run_ops ex_K ex_bip (VersionBitsCondition ex_K ex_bip) [StateOf (Some g2)] Map.empty =
        Some (Inr c) \<and>
      UpdateCacheState ex_K ex_bip (VersionBitsCondition ex_K ex_bip) (Some g1) c =
        Some (Inr (sa, c')) \<and>
      UpdateCacheState ex_K ex_bip (VersionBitsCondition ex_K ex_bip) (Some g5) c' =
        Some (Inr (sb, c'')) \<and>
      (sa \<noteq> DEFINED \<longrightarrow> sb \<noteq> DEFINED) \<and> (sa = ACTIVE \<longrightarrow> sb = ACTIVE) \<and>
      (sa = FAILED \<longrightarrow> sb = FAILED))"
proof -
  have vb: "VersionBitsCondition ex_K ex_bip = total_condition (Condition_spec ex_K ex_bip)"
    by (rule VersionBitsCondition_spec) (simp add: ex_defs)
  have h: "0 < nPeriod ex_bip" "wf_index g5" "mtp_monotone g5" "g1 \<in> set (ancestry g5)"
    "list_all (\<lambda>x. wf_ptr (op_ptr x)) [StateOf (Some g2)]"
    by (simp_all add: wf_ptr_def ex_defs)
  from threshold_state_progress[OF h, of ex_K "Condition_spec ex_K ex_bip", folded vb] h
  show ?thesis by (simp only: simp_thms)
qed




text \<open>
  Claim C8 (cache keys). For a deployment with a positive period and a condition that is
  defined on every entry, any sequence of \<^verbatim>\<open>UpdateCacheState\<close> and
  \<^verbatim>\<open>StartingHeightOfBlockIndexState\<close> calls on well-formed pointers, run from the empty
  cache, returns, and in the cache it leaves the null pointer is mapped to \<open>DEFINED\<close> only
  and every other key has a height \<open>h\<close> with \<open>(h + 1) mod nPeriod = 0\<close>.
\<close>

theorem cache_keys_period_ends:
  assumes "0 < nPeriod bip" "list_all (\<lambda>x. wf_ptr (op_ptr x)) ops"
  shows "\<exists>c. run_ops K bip (total_condition C) ops Map.empty = Some (Inr c) \<and>
           (\<forall>k s. c k = Some s \<longrightarrow>
              (case k of None \<Rightarrow> s = DEFINED
               | Some b \<Rightarrow> (nHeight b + 1) mod nPeriod bip = 0))"
proof -
  from run_ops_ok[OF assms(1) cache_ok_empty assms(2), where K = K and C = C] obtain c where
    c: "run_ops K bip (total_condition C) ops Map.empty = Some (Inr c)" "cache_ok bip C c" by blast
  have "\<forall>k s. c k = Some s \<longrightarrow>
          (case k of None \<Rightarrow> s = DEFINED | Some b \<Rightarrow> (nHeight b + 1) mod nPeriod bip = 0)"
  proof (intro allI impI)
    fix k s assume "c k = Some s"
    then have "s = period_state bip C k"
      "case k of None \<Rightarrow> True | Some b \<Rightarrow> (nHeight b + 1) mod nPeriod bip = 0"
      using c(2) unfolding cache_ok_def by blast+
    then show "case k of None \<Rightarrow> s = DEFINED | Some b \<Rightarrow> (nHeight b + 1) mod nPeriod bip = 0"
      by (cases k) auto
  qed
  then show ?thesis using c(1) by blast
qed

theorem cache_keys_period_ends_witness:
  "0 < nPeriod ex_bip \<and>
   list_all (\<lambda>x. wf_ptr (op_ptr x)) [StateOf (Some g5), SinceHeightOf (Some g4), StateOf (Some l1)] \<and>
   (\<exists>c. run_ops ex_K ex_bip (VersionBitsCondition ex_K ex_bip)
           [StateOf (Some g5), SinceHeightOf (Some g4), StateOf (Some l1)] Map.empty =
           Some (Inr c) \<and>
         (\<forall>k s. c k = Some s \<longrightarrow>
            (case k of None \<Rightarrow> s = DEFINED
             | Some b \<Rightarrow> (nHeight b + 1) mod nPeriod ex_bip = 0)))"
proof -
  have vb: "VersionBitsCondition ex_K ex_bip = total_condition (Condition_spec ex_K ex_bip)"
    by (rule VersionBitsCondition_spec) (simp add: ex_defs)
  have h: "0 < nPeriod ex_bip"
    "list_all (\<lambda>x. wf_ptr (op_ptr x)) [StateOf (Some g5), SinceHeightOf (Some g4), StateOf (Some l1)]"
    by (simp_all add: wf_ptr_def ex_defs)
  from cache_keys_period_ends[OF h, of ex_K "Condition_spec ex_K ex_bip", folded vb] h
  show ?thesis by (simp only: simp_thms)
qed


section \<open>Chain state and block tree databases: lemmas\<close>

lemma map_of_db_put: "map_of (db_put k v db) = (map_of db)(k \<mapsto> v)"
  by (induction db) (auto simp: fun_eq_iff)

lemma map_of_db_delete: "map_of (db_delete k db) = (map_of db)(k := None)"
  by (induction db) (auto simp: db_delete_def fun_eq_iff)

lemma map_of_apply_batch: "map_of (apply_batch db ops) = batch_map ops (map_of db)"
  by (induction db ops rule: apply_batch.induct)
     (simp_all add: map_of_db_put map_of_db_delete fun_upd_def)

lemma batch_map_append: "batch_map (xs @ ys) m = batch_map ys (batch_map xs m)"
  by (induction xs m rule: batch_map.induct) (simp_all add: fun_upd_def)

lemma batch_map_untouched: "\<forall>x \<in> set ops. op_key x \<noteq> k \<Longrightarrow> batch_map ops m k = m k"
  by (induction ops m rule: batch_map.induct) (auto simp add: fun_upd_def)

lemma BatchWrite_loop_eq:
  "BatchWrite_loop E mapCoins batch cnt changed =
     ([], batch @ map (coins_op E) (filter (\<lambda>x. flags (snd x) AND DIRTY E \<noteq> 0) mapCoins),
      cnt + length mapCoins,
      changed + length (filter (\<lambda>x. flags (snd x) AND DIRTY E \<noteq> 0) mapCoins))"
  by (induction E mapCoins batch cnt changed rule: BatchWrite_loop.induct)
     (simp_all add: BatchWriteCoins_def coins_op_def)

lemma BatchWrite_eq:
  "BatchWrite E db mapCoins hashBlock' io_ok =
     (io_ok, (if io_ok then apply_batch db (flush_batch E mapCoins hashBlock') else db), [])"
  by (simp add: BatchWrite_def BatchWrite_loop_eq WriteBatch_def flush_batch_def
      BatchWriteHashBestChain_def)

lemma hash_key_eq: "inj (ser_uint256 E) \<Longrightarrow> hash_key E c a = hash_key E c' b \<longleftrightarrow> tag c = tag c' \<and> a = b"
  by (auto simp: hash_key_def inj_def)

lemma op_key_coins_op [simp]: "op_key (coins_op E x) = hash_key E (CHR ''c'') (fst x)"
  by (simp add: coins_op_def)

lemma flush_erases:
  assumes d: "distinct (map fst mapCoins)" and i: "inj (ser_uint256 E)"
    and x: "(t, e) \<in> set mapCoins" "flags e AND DIRTY E \<noteq> 0" "IsPruned (coins e)"
  shows "batch_map (flush_batch E mapCoins hashBlock') m (hash_key E (CHR ''c'') t) = None"
proof -
  let ?dirty = "\<lambda>x. flags (snd x) AND DIRTY E \<noteq> 0"
  let ?k = "hash_key E (CHR ''c'') t"
  have "(t, e) \<in> set (filter ?dirty mapCoins)" using x by simp
  then obtain xs ys where s: "filter ?dirty mapCoins = xs @ (t, e) # ys"
    by (meson split_list)
  have "distinct (map fst (filter ?dirty mapCoins))" using d by (simp add: distinct_map_filter)
  then have nt: "\<forall>y \<in> set ys. fst y \<noteq> t" using s by auto
  have ys: "\<forall>y \<in> set (map (coins_op E) ys). op_key y \<noteq> ?k"
    using nt hash_key_eq[OF i] by auto
  have mk: "\<forall>y \<in> set (if hashBlock' \<noteq> 0 then [Put [tag (CHR ''B'')] (ser_uint256 E hashBlock')] else []).
              op_key y \<noteq> ?k"
    by (simp add: hash_key_def tag_def)
  have "flush_batch E mapCoins hashBlock' =
          map (coins_op E) xs @ [Delete ?k] @ map (coins_op E) ys
          @ (if hashBlock' \<noteq> 0 then [Put [tag (CHR ''B'')] (ser_uint256 E hashBlock')] else [])"
    using s x(3) by (simp add: flush_batch_def coins_op_def)
  then show ?thesis
    using batch_map_untouched[OF ys] batch_map_untouched[OF mk]
    by (simp add: batch_map_append)
qed

lemma le_word_le_bytes: "le_word (le_bytes n w) = take_bit (8 * n) w"
proof (induction n arbitrary: w)
  case 0
  then show ?case by simp
next
  case (Suc n)
  show ?case
    apply (simp add: Suc)
    apply (rule bit_word_eqI)
    apply (auto simp add: bit_simps)
    done
qed

lemma length_le_bytes [simp]: "length (le_bytes n w) = n"
  by (induction n arbitrary: w) simp_all

lemma le_word_le_bytes_256: "le_word (le_bytes 32 (w :: 256 word)) = w"
  by (simp add: le_word_le_bytes take_bit_word_eq_self del: le_bytes.simps)

lemma le_word_le_bytes_32: "le_word (le_bytes 4 (w :: 32 word)) = w"
  by (simp add: le_word_le_bytes take_bit_word_eq_self del: le_bytes.simps)

lemma le_bytes_256_eq [simp]: "le_bytes 32 (a :: 256 word) = le_bytes 32 b \<longleftrightarrow> a = b"
  by (metis le_word_le_bytes_256)

lemma ex_pos_roundtrip [simp]: "ex_unser_pos (ex_ser_pos p) = Some p"
  by (simp add: ex_unser_pos_def ex_ser_pos_def le_word_le_bytes_32 del: le_bytes.simps)


lemma tags_distinct [simp]: "tag DB_TXINDEX \<noteq> tag DB_BARETXIDINDEX"
  "tag DB_BARETXIDINDEX \<noteq> tag DB_TXINDEX"
  by (simp_all add: tag_def DB_TXINDEX_def DB_BARETXIDINDEX_def)



lemma GetStats_outputs_eq:
  "GetStats_outputs E outs i ss n tot =
     (ss @ concat (map (\<lambda>x. ser_varint E (int (fst x + 1)) @ ser_txout E (snd x))
                    (filter (\<lambda>x. snd x \<noteq> NullTxOut) (zip [i..<i + length outs] outs))),
      n + length (filter (\<lambda>out. out \<noteq> NullTxOut) outs),
      tot + output_sum outs)"
proof (induction outs arbitrary: i ss n tot)
  case Nil
  then show ?case by (simp add: output_sum_def)
next
  case (Cons out outs)
  have u: "[i..<Suc (i + length outs)] = i # [Suc i..<Suc (i + length outs)]"
    by (subst upt_rec) simp
  show ?case
    by (cases "out = NullTxOut") (simp_all add: Cons u output_sum_def del: upt.simps)
qed

lemma GetStats_scan_eq:
  "list_all (readable E) db \<Longrightarrow>
     \<exists>stats'. GetStats_scan E db ss stats tot =
        Inr (ss @ concat (map (entry_serialization E) (coins_records E db)), stats',
              tot + total_supply (coins_records E db)) \<and>
        hashBlock stats' = hashBlock stats \<and>
        nTransactions stats' = nTransactions stats + length (coins_records E db)"
proof (induction db arbitrary: ss stats tot)
  case Nil
  then show ?case by (simp add: coins_records_def total_supply_def)
next
  case (Cons r db)
  obtain slKey slValue where r: "r = (slKey, slValue)" by (cases r)
  have rd: "readable E r" and rest: "list_all (readable E) db" using Cons.prems by simp_all
  then obtain chType ssKey where k: "slKey = chType # ssKey"
    using r by (cases slKey) (auto simp: readable_def)
  show ?case
  proof (cases "chType = tag (CHR ''c'')")
    case False
    then have "\<not> is_coins_record r" using r k by (simp add: is_coins_record_def)
    then have c: "coins_records E (r # db) = coins_records E db" by (simp add: coins_records_def)
    have "GetStats_scan E (r # db) ss stats tot = GetStats_scan E db ss stats tot"
      using r k False by simp
    then show ?thesis using Cons.IH[OF rest, of ss stats tot] c by simp
  next
    case True
    then have ic: "is_coins_record r" using r k by (simp add: is_coins_record_def)
    then obtain c h where d: "unser_coins E slValue = Some c" "unser_uint256 E ssKey = Some h"
      using rd r k by (auto simp: readable_def)
    have cr: "coins_records E (r # db) = (h, c) # coins_records E db"
      using ic r k d by (simp add: coins_records_def)
    let ?ss1 = "ss @ ser_uint256 E h @ ser_varint E (CCoins.nVersion c)
                @ [tag (if fCoinBase c then CHR ''c'' else CHR ''n'')]
                @ ser_varint E (CCoins.nHeight c)"
    let ?st1 = "stats\<lparr>nTransactions := nTransactions stats + 1\<rparr>"
    let ?st2 = "?st1\<lparr>nTransactionOutputs := nTransactionOutputs ?st1
                        + length (filter (\<lambda>out. out \<noteq> NullTxOut) (vout c)),
                      nSerializedSize := nSerializedSize ?st1 + (32 + length slValue)\<rparr>"
    let ?ss2 = "?ss1 @ outputs_serialization E (vout c) @ ser_varint E 0"
    have step: "GetStats_scan E (r # db) ss stats tot =
                  GetStats_scan E db ?ss2 ?st2 (tot + output_sum (vout c))"
      using r k True d
      apply (simp only: r k GetStats_scan.simps list.case True if_True d option.case Let_def)
      apply (simp only: GetStats_outputs_eq prod.case add_0)
      apply (simp add: outputs_serialization_def del: upt.simps)
      done
    from Cons.IH[OF rest, of ?ss2 ?st2 "tot + output_sum (vout c)"] obtain stats' where
      s: "GetStats_scan E db ?ss2 ?st2 (tot + output_sum (vout c)) =
            Inr (?ss2 @ concat (map (entry_serialization E) (coins_records E db)), stats',
                  tot + output_sum (vout c) + total_supply (coins_records E db))"
         "hashBlock stats' = hashBlock ?st2"
         "nTransactions stats' = nTransactions ?st2 + length (coins_records E db)"
      by blast
    have e1: "?ss2 @ concat (map (entry_serialization E) (coins_records E db)) =
            ss @ concat (map (entry_serialization E) (coins_records E (r # db)))"
      using cr by (simp add: entry_serialization_def)
    have e2: "tot + output_sum (vout c) + total_supply (coins_records E db) =
            tot + total_supply (coins_records E (r # db))"
      using cr by (simp add: total_supply_def)
    have e3: "nTransactions ?st2 + length (coins_records E db) =
            nTransactions stats + length (coins_records E (r # db))"
      using cr by simp
    have e4: "hashBlock ?st2 = hashBlock stats" by simp
    have "GetStats_scan E (r # db) ss stats tot =
        Inr (ss @ concat (map (entry_serialization E) (coins_records E (r # db))), stats',
              tot + total_supply (coins_records E (r # db)))"
      using step s(1) e1 e2 by (simp only:)
    moreover have "hashBlock stats' = hashBlock stats" using s(2) e4 by (simp only:)
    moreover have "nTransactions stats' = nTransactions stats + length (coins_records E (r # db))"
      using s(3) e3 by (simp only:)
    ultimately show ?thesis by blast
  qed
qed

lemma ReadAddressIndex_scan_prefix:
  "list_all (address_record_ok E addressHash end) pre \<Longrightarrow>
     ReadAddressIndex_scan E addressHash end (pre @ cursor) acc =
     ReadAddressIndex_scan E addressHash end cursor (acc @ map (address_record E) pre)"
proof (induction pre arbitrary: acc)
  case Nil
  then show ?case by simp
next
  case (Cons r pre)
  obtain k v where r: "r = (k, v)" by (cases r)
  have "address_record_ok E addressHash end r" and rest: "list_all (address_record_ok E addressHash end) pre"
    using Cons.prems by simp_all
  then obtain key nv where
    d: "unser_address_key E k = Some key" "fst key = DB_ADDRESSINDEX"
       "CAddressIndexKey.hashBytes (snd key) = addressHash"
       "\<not> (end > 0 \<and> CAddressIndexKey.blockHeight (snd key) > end)"
       "unser_amount E v = Some nv"
    using r by (auto simp: address_record_ok_def address_key_in_range_def split: option.splits)
  have "ReadAddressIndex_scan E addressHash end ((r # pre) @ cursor) acc =
          ReadAddressIndex_scan E addressHash end (pre @ cursor) (acc @ [address_record E r])"
    using r d by (auto simp add: GetKey_def address_record_def)
  then show ?case using Cons.IH[OF rest] by simp
qed

lemma ReadAddressUnspentIndex_scan_prefix:
  "list_all (unspent_record_ok E addressHash) pre \<Longrightarrow>
     ReadAddressUnspentIndex_scan E addressHash (pre @ cursor) acc =
     ReadAddressUnspentIndex_scan E addressHash cursor (acc @ map (unspent_record E) pre)"
proof (induction pre arbitrary: acc)
  case Nil
  then show ?case by simp
next
  case (Cons r pre)
  obtain k v where r: "r = (k, v)" by (cases r)
  have "unspent_record_ok E addressHash r" and rest: "list_all (unspent_record_ok E addressHash) pre"
    using Cons.prems by simp_all
  then obtain key nv where
    d: "unser_unspent_key E k = Some key" "fst key = DB_ADDRESSUNSPENTINDEX"
       "CAddressUnspentKey.hashBytes (snd key) = addressHash"
       "unser_unspent_value E v = Some nv"
    using r by (auto simp: unspent_record_ok_def unspent_key_in_range_def split: option.splits)
  have "ReadAddressUnspentIndex_scan E addressHash ((r # pre) @ cursor) acc =
          ReadAddressUnspentIndex_scan E addressHash (pre @ cursor) (acc @ [unspent_record E r])"
    using r d by (auto simp add: GetKey_def unspent_record_def)
  then show ?case using Cons.IH[OF rest] by simp
qed

lemma ex_E_simps [simp]:
  "DIRTY ex_E = 1" "ser_uint256 ex_E = le_bytes 32" "unser_uint256 ex_E = ex_unser_uint256"
  "ser_varint ex_E = ex_ser_varint" "ser_txout ex_E = ex_ser_txout" "ser_coins ex_E = ex_ser_coins"
  "unser_coins ex_E = ex_unser_coins" "ser_pos ex_E = ex_ser_pos" "unser_pos ex_E = ex_unser_pos"
  "ser_iterator_key ex_E = ex_ser_iterator_key"
  "ser_iterator_height_key ex_E = ex_ser_iterator_height_key"
  "unser_address_key ex_E = ex_unser_address_key" "unser_amount ex_E = ex_unser_amount"
  "unser_unspent_key ex_E = ex_unser_unspent_key"
  "unser_unspent_value ex_E = ex_unser_unspent_value" "SHA256d ex_E = ex_hash"
  by (simp_all add: ex_E_def)

lemma ex_E_inj: "inj (ser_uint256 ex_E)"
  by (simp add: inj_def)

lemma ex_hash_key_eq [simp]: "hash_key ex_E c a = hash_key ex_E c' b \<longleftrightarrow> tag c = tag c' \<and> a = b"
  using hash_key_eq[OF ex_E_inj] .


lemma le_word_le_bytes_160: "le_word (le_bytes 20 (w :: 160 word)) = w"
  by (simp add: le_word_le_bytes take_bit_word_eq_self del: le_bytes.simps)

lemma le_word_le_bytes_64: "le_word (le_bytes 8 (w :: 64 word)) = w"
  by (simp add: le_word_le_bytes take_bit_word_eq_self del: le_bytes.simps)

lemma bytes_less_append: "\<not> bytes_less (xs @ ys) xs"
  by (induction xs) (cases ys; simp)+

lemma ex_best: "GetBestBlock ex_E ex_stats_db = 8"
  by (simp add: GetBestBlock_def Read_def ex_stats_db_def ex_unser_uint256_def
      le_word_le_bytes_256 tag_def del: le_bytes.simps)

lemma ex_coins_records: "coins_records ex_E ex_stats_db = [(1, ex_live)]"
  by (simp add: coins_records_def is_coins_record_def ex_stats_db_def tag_def
      ex_unser_uint256_def ex_unser_coins_def le_word_le_bytes_256 ex_live_def
      del: le_bytes.simps)

lemma Seek_prefix: "Seek ((p @ s, v) # db) p = (p @ s, v) # db"
  by (simp add: Seek_def bytes_less_append)

lemma ex_prefix_length [simp]: "length ex_prefix = 25" "length ex_uprefix = 25"
  by (simp_all add: ex_prefix_def ex_uprefix_def ex_ser_iterator_key_def)

lemma ex_char_tag [simp]: "char_of (unat (tag c)) = c"
proof -
  have "(of_char c :: 8 word) = of_nat (of_char c)" by (simp add: of_nat_of_char)
  then have "unat (of_char c :: 8 word) = of_char c mod 256"
    by (simp add: unat_of_nat del: of_nat_of_char)
  then show ?thesis by (simp add: tag_def char_of_mod_256)
qed

lemma ex_addr_key_full:
  "ex_unser_address_key (ex_prefix @ le_bytes 4 (h :: 32 word)) =
     Some (DB_ADDRESSINDEX,
       \<lparr>CAddressIndexKey.type = 1, CAddressIndexKey.hashBytes = 7,
        CAddressIndexKey.blockHeight = uint h, txindex = 0, CAddressIndexKey.txhash = 0,
        CAddressIndexKey.index = 0, spending = False\<rparr>)"
  by (simp add: ex_unser_address_key_def ex_prefix_def ex_ser_iterator_key_def
      le_word_le_bytes_160 le_word_le_bytes_32 del: le_bytes.simps)

lemma ex_unspent_key_full:
  "ex_unser_unspent_key (ex_uprefix @ le_bytes 4 (h :: 32 word)) =
     Some (DB_ADDRESSUNSPENTINDEX,
       \<lparr>CAddressUnspentKey.type = 1, CAddressUnspentKey.hashBytes = 7,
        CAddressUnspentKey.txhash = 0, CAddressUnspentKey.index = unat h\<rparr>)"
  by (simp add: ex_unser_unspent_key_def ex_uprefix_def ex_ser_iterator_key_def
      le_word_le_bytes_160 le_word_le_bytes_32 del: le_bytes.simps)

lemma ex_key_short:
  "ex_unser_address_key (ex_prefix @ [150]) = None" "ex_unser_unspent_key (ex_uprefix @ [150]) = None"
  by (simp_all add: ex_unser_address_key_def ex_unser_unspent_key_def)

lemma ex_amount [simp]: "ex_unser_amount (ex_ser_amount n) = Some (sint (word_of_int n :: 64 word))"
  "ex_unser_amount [1, 2, 3] = None"
  by (simp_all add: ex_unser_amount_def ex_ser_amount_def le_word_le_bytes_64 del: le_bytes.simps)

lemma ex_seek_keys:
  "address_seek_key ex_E 7 1 0 0 = ex_prefix"
  "ser_iterator_key ex_E (DB_ADDRESSUNSPENTINDEX, 1, 7) = ex_uprefix"
  by (simp_all add: address_seek_key_def ex_prefix_def ex_uprefix_def)


section \<open>Chain state and block tree databases: the claims\<close>

text \<open>
  Claim C3 (the stats hash), as the source has it. When every record of the database is
  read without an exception and the best block is in the block map, \<^verbatim>\<open>GetStats\<close> returns
  true, and \<open>hashSerialized\<close> is the hash of exactly this byte sequence: the best-block hash,
  then for each coins record in the order of the database the txhash, the version, the
  coinbase flag \<open>'c'\<close> or \<open>'n'\<close>, the height, each non-null output preceded by its 1-based
  index, and a terminating 0. The total supply, the sum of all non-null output values, is
  returned as \<open>nTotalAmount\<close>; it is not written to the hash.
\<close>

theorem GetStats_hash_serialization:
  assumes "list_all (readable E) db" "mapBlockIndex (GetBestBlock E db) = Some pindex"
  shows "\<exists>stats'. GetStats E db mapBlockIndex stats = Inr (True, stats') \<and>
           hashBlock stats' = GetBestBlock E db \<and>
           hashSerialized stats' =
             SHA256d E (canonical_serialization E (GetBestBlock E db) (coins_records E db)) \<and>
           nTotalAmount stats' = total_supply (coins_records E db) \<and>
           CCoinsStats.nHeight stats' = nHeight pindex \<and>
           nTransactions stats' = nTransactions stats + length (coins_records E db)"
proof -
  let ?st = "stats\<lparr>hashBlock := GetBestBlock E db\<rparr>"
  from GetStats_scan_eq[OF assms(1), of "ser_uint256 E (GetBestBlock E db)" ?st 0]
  obtain stats' where
    s: "GetStats_scan E db (ser_uint256 E (GetBestBlock E db)) ?st 0 =
          Inr (ser_uint256 E (GetBestBlock E db)
                  @ concat (map (entry_serialization E) (coins_records E db)), stats',
                0 + total_supply (coins_records E db))"
       "hashBlock stats' = hashBlock ?st"
       "nTransactions stats' = nTransactions ?st + length (coins_records E db)"
    by blast
  show ?thesis using s assms(2)
    by (simp add: GetStats_def canonical_serialization_def Let_def)
qed

theorem GetStats_hash_serialization_witness:
  "list_all (readable ex_E) ex_stats_db \<and>
   [8 \<mapsto> g0] (GetBestBlock ex_E ex_stats_db) = Some g0 \<and>
   (\<exists>stats'. GetStats ex_E ex_stats_db [8 \<mapsto> g0] ex_stats = Inr (True, stats') \<and>
      hashBlock stats' = 8 \<and>
      hashSerialized stats' = SHA256d ex_E (canonical_serialization ex_E 8 [(1, ex_live)]) \<and>
      nTotalAmount stats' = 7 \<and>
      CCoinsStats.nHeight stats' = 0 \<and>
      nTransactions stats' = 1)"
proof -
  have h: "list_all (readable ex_E) ex_stats_db"
    "[8 \<mapsto> g0] (GetBestBlock ex_E ex_stats_db) = Some g0"
    by (simp_all add: ex_best)
       (simp add: readable_def is_coins_record_def ex_stats_db_def tag_def
        ex_unser_uint256_def ex_unser_coins_def del: le_bytes.simps)
  have t: "total_supply [(1, ex_live)] = 7" "nHeight g0 = 0"
    "nTransactions ex_stats + length [(1 :: uint256, ex_live)] = 1"
    by (simp_all add: total_supply_def output_sum_def ex_live_def g0_def ex_stats_def)
  from GetStats_hash_serialization[of ex_E ex_stats_db "[8 \<mapsto> g0]" g0 ex_stats, OF h] h t show ?thesis
    by (simp only: ex_best ex_coins_records simp_thms)
qed

text \<open>
  The claim as it is written puts the total supply at the end of the hashed sequence. With
  a best block and no coins, the sequence hashed is the best-block hash alone (scenario 2 of
  the specification's section 8); the claimed sequence has the serialized total after it.
\<close>

theorem GetStats_total_supply_counterexample:
  "GetStats ex_E ex_stats_db0 [8 \<mapsto> g0] ex_stats =
     Inr (True, ex_stats\<lparr>hashBlock := 8, hashSerialized := SHA256d ex_E (ser_uint256 ex_E 8)\<rparr>) \<and>
   claimed_serialization ex_E ex_ser_amount 8 (coins_records ex_E ex_stats_db0) =
     ser_uint256 ex_E 8 @ ex_ser_amount 0 \<and>
   SHA256d ex_E (ser_uint256 ex_E 8) \<noteq> SHA256d ex_E (ser_uint256 ex_E 8 @ ex_ser_amount 0)"
  by (simp add: GetStats_def GetBestBlock_def Read_def ex_stats_db0_def ex_unser_uint256_def
      le_word_le_bytes_256 tag_def ex_stats_def g0_def claimed_serialization_def
      canonical_serialization_def coins_records_def is_coins_record_def total_supply_def
      ex_hash_def ex_ser_amount_def del: le_bytes.simps)

text \<open>
  Claim C4 (range reads), as the source has it. Let the scan of \<^verbatim>\<open>ReadAddressIndex\<close> or
  \<^verbatim>\<open>ReadAddressUnspentIndex\<close> first read records that it appends and then meet a record
  \<open>(k, v)\<close> whose key does not deserialize, or whose key is in the scanned range and whose
  value does not deserialize. The iteration stops there, nothing after the record is read,
  and the vector holds the records appended before it. The call returns false when the
  value failed, and true when the key failed: \<^verbatim>\<open>GetKey\<close> catches the exception, and the
  loop leaves as it does on a key of another address.
\<close>

theorem range_read_deserialization_failure:
  assumes "Seek db (address_seek_key E addressHash ty start end) = pre @ (k, v) # rest"
    and "list_all (address_record_ok E addressHash end) pre"
    and "unser_address_key E k = None
         \<or> (address_key_in_range E addressHash end k \<and> unser_amount E v = None)"
    and "Seek db' (ser_iterator_key E (DB_ADDRESSUNSPENTINDEX, ty', addressHash')) =
           pre' @ (k', v') # rest'"
    and "list_all (unspent_record_ok E addressHash') pre'"
    and "unser_unspent_key E k' = None
         \<or> (unspent_key_in_range E addressHash' k' \<and> unser_unspent_value E v' = None)"
  shows "ReadAddressIndex E db addressHash ty addressIndex start end =
           (unser_address_key E k = None, addressIndex @ map (address_record E) pre) \<and>
         ReadAddressUnspentIndex E db' addressHash' ty' unspentOutputs =
           (unser_unspent_key E k' = None, unspentOutputs @ map (unspent_record E) pre')"
proof -
  have a: "ReadAddressIndex_scan E addressHash end ((k, v) # rest) acc =
             (unser_address_key E k = None, acc)" for acc
  proof (cases "unser_address_key E k")
    case None
    then show ?thesis by (simp add: GetKey_def)
  next
    case (Some key)
    then have "address_key_in_range E addressHash end k" "unser_amount E v = None"
      using assms(3) by simp_all
    then show ?thesis using Some by (simp add: GetKey_def address_key_in_range_def)
  qed
  have u: "ReadAddressUnspentIndex_scan E addressHash' ((k', v') # rest') acc =
             (unser_unspent_key E k' = None, acc)" for acc
  proof (cases "unser_unspent_key E k'")
    case None
    then show ?thesis by (simp add: GetKey_def)
  next
    case (Some key)
    then have "unspent_key_in_range E addressHash' k'" "unser_unspent_value E v' = None"
      using assms(6) by simp_all
    then show ?thesis using Some by (simp add: GetKey_def unspent_key_in_range_def)
  qed
  show ?thesis
    unfolding ReadAddressIndex_def ReadAddressUnspentIndex_def Let_def
      address_seek_key_def[symmetric] assms(1,4)
      ReadAddressIndex_scan_prefix[OF assms(2)] ReadAddressUnspentIndex_scan_prefix[OF assms(5)]
      a u
    by simp
qed

theorem range_read_deserialization_failure_witness:
  "Seek [ex_addr_ok, ex_addr_badvalue, ex_addr_later] (address_seek_key ex_E 7 1 0 0) =
     [ex_addr_ok] @ ex_addr_badvalue # [ex_addr_later] \<and>
   list_all (address_record_ok ex_E 7 0) [ex_addr_ok] \<and>
   address_key_in_range ex_E 7 0 (fst ex_addr_badvalue) \<and>
   unser_amount ex_E (snd ex_addr_badvalue) = None \<and>
   Seek [ex_unspent_ok, ex_unspent_badkey] (ser_iterator_key ex_E (DB_ADDRESSUNSPENTINDEX, 1, 7)) =
     [ex_unspent_ok] @ ex_unspent_badkey # [] \<and>
   list_all (unspent_record_ok ex_E 7) [ex_unspent_ok] \<and>
   unser_unspent_key ex_E (fst ex_unspent_badkey) = None \<and>
   ReadAddressIndex ex_E [ex_addr_ok, ex_addr_badvalue, ex_addr_later] 7 1 [] 0 0 =
     (False, [address_record ex_E ex_addr_ok]) \<and>
   ReadAddressUnspentIndex ex_E [ex_unspent_ok, ex_unspent_badkey] 7 1 [] =
     (True, [unspent_record ex_E ex_unspent_ok])"
proof -
  have h1: "Seek [ex_addr_ok, ex_addr_badvalue, ex_addr_later] (address_seek_key ex_E 7 1 0 0) =
     [ex_addr_ok] @ (fst ex_addr_badvalue, snd ex_addr_badvalue) # [ex_addr_later]"
    by (simp add: ex_seek_keys ex_addr_ok_def Seek_prefix)
  have h2: "list_all (address_record_ok ex_E 7 0) [ex_addr_ok]"
    by (simp add: address_record_ok_def address_key_in_range_def ex_addr_ok_def ex_addr_key_full)
  have h3a: "address_key_in_range ex_E 7 0 (fst ex_addr_badvalue)"
    "unser_amount ex_E (snd ex_addr_badvalue) = None"
    by (simp_all add: address_key_in_range_def ex_addr_badvalue_def ex_addr_key_full)
  then have h3: "unser_address_key ex_E (fst ex_addr_badvalue) = None
     \<or> (address_key_in_range ex_E 7 0 (fst ex_addr_badvalue)
        \<and> unser_amount ex_E (snd ex_addr_badvalue) = None)"
    by simp
  have h4: "Seek [ex_unspent_ok, ex_unspent_badkey]
      (ser_iterator_key ex_E (DB_ADDRESSUNSPENTINDEX, 1, 7)) =
     [ex_unspent_ok] @ (fst ex_unspent_badkey, snd ex_unspent_badkey) # []"
    by (simp add: ex_uprefix_def[symmetric] ex_unspent_ok_def Seek_prefix)
  have h5: "list_all (unspent_record_ok ex_E 7) [ex_unspent_ok]"
    by (simp add: unspent_record_ok_def unspent_key_in_range_def ex_unspent_ok_def
        ex_unspent_key_full ex_unser_unspent_value_def ex_ser_amount_def)
  have h6a: "unser_unspent_key ex_E (fst ex_unspent_badkey) = None"
    by (simp add: ex_unspent_badkey_def ex_key_short)
  then have h6: "unser_unspent_key ex_E (fst ex_unspent_badkey) = None
     \<or> (unspent_key_in_range ex_E 7 (fst ex_unspent_badkey)
        \<and> unser_unspent_value ex_E (snd ex_unspent_badkey) = None)"
    by simp
  have nk: "unser_address_key ex_E (fst ex_addr_badvalue) \<noteq> None"
    by (simp add: ex_addr_badvalue_def ex_addr_key_full)
  from range_read_deserialization_failure[OF h1 h2 h3 h4 h5 h6, of "[]" "[]"] nk h6a
  have "ReadAddressIndex ex_E [ex_addr_ok, ex_addr_badvalue, ex_addr_later] 7 1 [] 0 0 =
     (False, [address_record ex_E ex_addr_ok])"
    "ReadAddressUnspentIndex ex_E [ex_unspent_ok, ex_unspent_badkey] 7 1 [] =
     (True, [unspent_record ex_E ex_unspent_ok])"
    by simp_all
  then show ?thesis using h1 h2 h3a h4 h5 h6a by simp
qed

text \<open>
  The claim as it is written fails for a key: a record under the scanned prefix whose key
  is cut short ends the scan with success, and the readable record after it is not
  returned.
\<close>

theorem range_read_undecodable_key_counterexample:
  "fst ex_addr_badkey = address_seek_key ex_E 7 1 0 0 @ [150] \<and>
   unser_address_key ex_E (fst ex_addr_badkey) = None \<and>
   ReadAddressIndex ex_E [ex_addr_ok, ex_addr_badkey, ex_addr_later] 7 1 [] 0 0 =
     (True, [address_record ex_E ex_addr_ok])"
proof -
  have h1: "Seek [ex_addr_ok, ex_addr_badkey, ex_addr_later] (address_seek_key ex_E 7 1 0 0) =
     [ex_addr_ok] @ (fst ex_addr_badkey, snd ex_addr_badkey) # [ex_addr_later]"
    by (simp add: ex_seek_keys ex_addr_ok_def Seek_prefix)
  have h2: "list_all (address_record_ok ex_E 7 0) [ex_addr_ok]"
    by (simp add: address_record_ok_def address_key_in_range_def ex_addr_ok_def ex_addr_key_full)
  have k: "unser_address_key ex_E (fst ex_addr_badkey) = None"
    by (simp add: ex_addr_badkey_def ex_key_short)
  have "ReadAddressIndex_scan ex_E 7 0 ((fst ex_addr_badkey, snd ex_addr_badkey) # [ex_addr_later])
          [address_record ex_E ex_addr_ok] = (True, [address_record ex_E ex_addr_ok])"
    using k by (simp only: ReadAddressIndex_scan.simps GetKey_def option.case)
  then have "ReadAddressIndex_scan ex_E 7 0 ([ex_addr_ok] @ (fst ex_addr_badkey, snd ex_addr_badkey) # [ex_addr_later]) [] =
          (True, [address_record ex_E ex_addr_ok])"
    unfolding ReadAddressIndex_scan_prefix[OF h2] by simp
  then have "ReadAddressIndex ex_E [ex_addr_ok, ex_addr_badkey, ex_addr_later] 7 1 [] 0 0 =
     (True, [address_record ex_E ex_addr_ok])"
    unfolding ReadAddressIndex_def Let_def address_seek_key_def[symmetric] h1 .
  then show ?thesis using k by (simp add: ex_addr_badkey_def ex_seek_keys)
qed

text \<open>
  Claim C5 (flush). \<^verbatim>\<open>BatchWrite\<close> commits, in one batch, for exactly the entries flagged
  \<open>DIRTY\<close> an erase of the key \<open>('c', txid)\<close> when the coins record is fully pruned and a write
  of the coins record otherwise, and the best-block marker \<open>'B'\<close> if and only if the hash is
  not zero. Consequently, for a cache map with distinct keys and a serialization of hashes
  that is injective, after a flush that succeeds \<^verbatim>\<open>HaveCoins\<close> is false for every dirty
  entry whose outputs are all null.
\<close>

theorem BatchWrite_flush:
  assumes "distinct (map fst mapCoins)" "inj (ser_uint256 E)"
  shows "BatchWrite E db mapCoins hashBlock' io_ok =
           (io_ok, (if io_ok then apply_batch db (flush_batch E mapCoins hashBlock') else db), [])
         \<and> (\<forall>t e. (t, e) \<in> set mapCoins \<and> flags e AND DIRTY E \<noteq> 0 \<and> IsPruned (coins e) \<and> io_ok
               \<longrightarrow> \<not> HaveCoins E (fst (snd (BatchWrite E db mapCoins hashBlock' io_ok))) t)"
  using flush_erases[OF assms]
  by (auto simp: BatchWrite_eq HaveCoins_def Exists_def map_of_apply_batch)

theorem BatchWrite_flush_witness:
  "distinct (map fst ex_mapCoins) \<and> inj (ser_uint256 ex_E) \<and>
   HaveCoins ex_E ex_coins_db 1 \<and>
   BatchWrite ex_E ex_coins_db ex_mapCoins 9 True =
     (True, apply_batch ex_coins_db
              [Delete (hash_key ex_E (CHR ''c'') 1),
               Put (hash_key ex_E (CHR ''c'') 2) (ser_coins ex_E ex_live),
               Put [tag (CHR ''B'')] (ser_uint256 ex_E 9)], []) \<and>
   \<not> HaveCoins ex_E (fst (snd (BatchWrite ex_E ex_coins_db ex_mapCoins 9 True))) 1"
proof -
  have h: "distinct (map fst ex_mapCoins)" "inj (ser_uint256 ex_E)"
    using ex_E_inj by (simp_all add: ex_mapCoins_def)
  have f: "flush_batch ex_E ex_mapCoins 9 =
             [Delete (hash_key ex_E (CHR ''c'') 1),
              Put (hash_key ex_E (CHR ''c'') 2) (ser_coins ex_E ex_live),
              Put [tag (CHR ''B'')] (ser_uint256 ex_E 9)]"
    by (simp add: flush_batch_def coins_op_def IsPruned_def ex_mapCoins_def ex_spent_def
        ex_live_def)
  have b: "HaveCoins ex_E ex_coins_db 1"
    by (simp add: HaveCoins_def Exists_def ex_coins_db_def hash_key_def tag_def)
  have x: "(1, \<lparr>coins = ex_spent, flags = 1\<rparr>) \<in> set ex_mapCoins"
    "flags \<lparr>coins = ex_spent, flags = 1\<rparr> AND DIRTY ex_E \<noteq> 0"
    "IsPruned (coins \<lparr>coins = ex_spent, flags = 1\<rparr>)"
    by (simp_all add: ex_mapCoins_def IsPruned_def ex_spent_def)
  note c = BatchWrite_flush[OF h, of ex_coins_db 9 True]
  from c[THEN conjunct2] x
  have 3: "\<not> HaveCoins ex_E (fst (snd (BatchWrite ex_E ex_coins_db ex_mapCoins 9 True))) 1"
    by blast
  from c[THEN conjunct1] have 4: "BatchWrite ex_E ex_coins_db ex_mapCoins 9 True =
     (True, apply_batch ex_coins_db
              [Delete (hash_key ex_E (CHR ''c'') 1),
               Put (hash_key ex_E (CHR ''c'') 2) (ser_coins ex_E ex_live),
               Put [tag (CHR ''B'')] (ser_uint256 ex_E 9)], [])"
    by (simp only: f if_True)
  from h b 3 4 show ?thesis by (simp only: simp_thms)
qed




text \<open>
  Claim C10 (the cache map after a flush). The loop of \<^verbatim>\<open>BatchWrite\<close> leaves the map
  empty before \<^verbatim>\<open>WriteBatch\<close> is called, so the map is empty after every call, and a call
  whose write fails returns false with the database unchanged and the map empty.
\<close>

theorem BatchWrite_empties_cache:
  "fst (BatchWrite_loop E mapCoins [] 0 0) = [] \<and>
   snd (snd (BatchWrite E db mapCoins hashBlock' io_ok)) = [] \<and>
   BatchWrite E db mapCoins hashBlock' False = (False, db, [])"
  by (simp add: BatchWrite_eq BatchWrite_loop_eq)

theorem BatchWrite_empties_cache_witness:
  "fst (BatchWrite_loop ex_E ex_mapCoins [] 0 0) = [] \<and>
   snd (snd (BatchWrite ex_E ex_coins_db ex_mapCoins 9 True)) = [] \<and>
   BatchWrite ex_E ex_coins_db ex_mapCoins 9 False = (False, ex_coins_db, [])"
  using BatchWrite_empties_cache[of ex_E ex_mapCoins ex_coins_db 9 True] by simp

end
